theory Spec2Isabelle
  imports Main "HOL-Library.Word" "HOL-Library.Monad_Syntax"
begin

unbundle bit_operations_syntax

section \<open>Memory model\<close>

text \<open>
  The manager of \<^verbatim>\<open>lrumemorymanager.cpp\<close> keeps all of its bookkeeping in hunk headers
  that live inside the arena and are linked by raw pointers, and it reaches the callers'
  handle objects through raw back-pointers. The embedding therefore keeps an explicit
  store: addresses are natural numbers, \<open>0\<close> is \<^verbatim>\<open>nullptr\<close>, \<open>hunk_at\<close> gives the hunk
  header constructed at an address (if any) and \<open>handle_at\<close> gives the \<^verbatim>\<open>hunk_ptr_\<close> member
  of the handle object stored at an address.

  \<^verbatim>\<open>size_t\<close> is the 64-bit unsigned type of an LP64 target, so its arithmetic wraps
  modulo \<open>2^64\<close>; \<^verbatim>\<open>sizeof(LRUMemoryHunk)\<close> is 48 there (one \<^verbatim>\<open>size_t\<close>, five pointers and a
  flexible array member). Pointer arithmetic is address arithmetic on naturals.

  Every operation returns an \<open>option\<close>: \<open>None\<close> stands for the process not returning
  normally, that is a failed \<^verbatim>\<open>Expects\<close>, an access through a null pointer or to a hunk whose
  lifetime has ended, or a loop that never ends.
\<close>

type_synonym addr = nat
type_synonym size_t = "64 word"

abbreviation nullptr :: addr where
  "nullptr \<equiv> 0"

definition MEMORY_ALIGNMENT :: size_t where
  "MEMORY_ALIGNMENT = 16"

definition ALIGNMENT_MASK :: size_t where
  "ALIGNMENT_MASK = MEMORY_ALIGNMENT - 1"

definition sizeof_LRUMemoryHunk :: size_t where
  "sizeof_LRUMemoryHunk = 48"

record LRUMemoryHunk =
  size_field :: size_t
  handler_ptr :: addr
  prev_ptr :: addr
  next_ptr :: addr
  least_recent_ptr :: addr
  most_recent_ptr :: addr

text \<open>A hunk as its default member initialisers leave it.\<close>

definition LRUMemoryHunk_init :: LRUMemoryHunk where
  "LRUMemoryHunk_init =
     \<lparr>size_field = 0, handler_ptr = nullptr, prev_ptr = nullptr, next_ptr = nullptr,
      least_recent_ptr = nullptr, most_recent_ptr = nullptr\<rparr>"

record mm =
  mem_total_size :: size_t
  mem_allocated_size :: size_t
  mem_arena_ptr :: addr
  hunk_at :: "addr \<rightharpoonup> LRUMemoryHunk"
  handle_at :: "addr \<Rightarrow> addr"

definition expects :: "bool \<Rightarrow> unit option" where
  "expects c = (if c then Some () else None)"

text \<open>Reading a hunk through a pointer, and assigning to its members.\<close>

definition deref :: "mm \<Rightarrow> addr \<Rightarrow> LRUMemoryHunk option" where
  "deref s p = (if p = nullptr then None else hunk_at s p)"

definition assign :: "mm \<Rightarrow> addr \<Rightarrow> (LRUMemoryHunk \<Rightarrow> LRUMemoryHunk) \<Rightarrow> mm option" where
  "assign s p f = do {
     h \<leftarrow> deref s p;
     Some (s\<lparr>hunk_at := (hunk_at s)(p \<mapsto> f h)\<rparr>)
   }"

text \<open>Placement new of a hunk header, and the end of a hunk's lifetime.\<close>

definition construct_hunk :: "mm \<Rightarrow> addr \<Rightarrow> mm option" where
  "construct_hunk s p =
     (if p = nullptr then None
      else Some (s\<lparr>hunk_at := (hunk_at s)(p \<mapsto> LRUMemoryHunk_init)\<rparr>))"

definition destroy_hunk :: "mm \<Rightarrow> addr \<Rightarrow> mm" where
  "destroy_hunk s p = s\<lparr>hunk_at := (hunk_at s)(p := None)\<rparr>"

text \<open>The \<^verbatim>\<open>hunk_ptr_\<close> member of a handle, read and written through a handle pointer.\<close>

definition get_hunk_ptr :: "mm \<Rightarrow> addr \<Rightarrow> addr option" where
  "get_hunk_ptr s handle_ptr =
     (if handle_ptr = nullptr then None else Some (handle_at s handle_ptr))"

definition set_hunk_ptr :: "mm \<Rightarrow> addr \<Rightarrow> addr \<Rightarrow> mm option" where
  "set_hunk_ptr s handle_ptr p =
     (if handle_ptr = nullptr then None
      else Some (s\<lparr>handle_at := (handle_at s)(handle_ptr := p)\<rparr>))"

text \<open>\<^verbatim>\<open>hunk_ptr->data_ptr\<close>: the flexible array member starts right after the header.\<close>

definition data_ptr :: "addr \<Rightarrow> addr" where
  "data_ptr hunk_ptr = hunk_ptr + unat sizeof_LRUMemoryHunk"

section \<open>The operations of the manager\<close>

definition get_head_hunk :: "mm \<Rightarrow> addr" where
  "get_head_hunk s = mem_arena_ptr s"

text \<open>
  The constructor. \<open>malloc_result\<close> is the address \<^verbatim>\<open>std::malloc\<close> returned
  (\<open>nullptr\<close> when it failed, on which the constructor aborts); no handle is bound yet.
\<close>

definition LRUMemoryManager :: "addr \<Rightarrow> size_t \<Rightarrow> mm option" where
  "LRUMemoryManager malloc_result mem_pool_size = do {
     expects (mem_pool_size > 0);
     expects (malloc_result \<noteq> nullptr);
     let head_hunk_ptr = malloc_result;
     Some \<lparr>mem_total_size = mem_pool_size,
           mem_allocated_size = sizeof_LRUMemoryHunk,
           mem_arena_ptr = malloc_result,
           hunk_at = [head_hunk_ptr \<mapsto>
             LRUMemoryHunk_init\<lparr>next_ptr := head_hunk_ptr, prev_ptr := head_hunk_ptr,
               most_recent_ptr := head_hunk_ptr, least_recent_ptr := head_hunk_ptr,
               size_field := sizeof_LRUMemoryHunk\<rparr>],
           handle_at = (\<lambda>_. nullptr)\<rparr>
   }"

definition unlink_lru :: "mm \<Rightarrow> addr \<Rightarrow> mm option" where
  "unlink_lru s hunk_ptr = do {
     expects (hunk_ptr \<noteq> nullptr);
     hunk \<leftarrow> deref s hunk_ptr;
     expects (most_recent_ptr hunk \<noteq> nullptr \<and> least_recent_ptr hunk \<noteq> nullptr);
     s \<leftarrow> assign s (most_recent_ptr hunk) (least_recent_ptr_update (\<lambda>_. least_recent_ptr hunk));
     hunk \<leftarrow> deref s hunk_ptr;
     s \<leftarrow> assign s (least_recent_ptr hunk) (most_recent_ptr_update (\<lambda>_. most_recent_ptr hunk));
     s \<leftarrow> assign s hunk_ptr (most_recent_ptr_update (\<lambda>_. nullptr));
     assign s hunk_ptr (least_recent_ptr_update (\<lambda>_. nullptr))
   }"

definition link_lru :: "mm \<Rightarrow> addr \<Rightarrow> mm option" where
  "link_lru s hunk_ptr = do {
     expects (hunk_ptr \<noteq> nullptr);
     hunk \<leftarrow> deref s hunk_ptr;
     expects (most_recent_ptr hunk = nullptr \<and> least_recent_ptr hunk = nullptr);
     let head_hunk_ptr = get_head_hunk s;
     head \<leftarrow> deref s head_hunk_ptr;
     s \<leftarrow> assign s (most_recent_ptr head) (least_recent_ptr_update (\<lambda>_. hunk_ptr));
     head \<leftarrow> deref s head_hunk_ptr;
     s \<leftarrow> assign s hunk_ptr (most_recent_ptr_update (\<lambda>_. most_recent_ptr head));
     s \<leftarrow> assign s hunk_ptr (least_recent_ptr_update (\<lambda>_. head_hunk_ptr));
     assign s head_hunk_ptr (most_recent_ptr_update (\<lambda>_. hunk_ptr))
   }"

text \<open>
  The two places where \<^verbatim>\<open>try_alloc\<close> builds a hunk (inside the walk, before
  \<open>next_hunk_ptr\<close>, and at the end of the pool, before the head) run the same statements;
  \<open>place_hunk\<close> is that block, with \<open>next_hunk_ptr\<close> the head in the second case.
\<close>

definition place_hunk :: "mm \<Rightarrow> size_t \<Rightarrow> addr \<Rightarrow> addr \<Rightarrow> (addr \<times> mm) option" where
  "place_hunk s size' current_end next_hunk_ptr = do {
     let new_hunk_ptr = current_end;
     s \<leftarrow> construct_hunk s new_hunk_ptr;
     s \<leftarrow> assign s new_hunk_ptr (size_field_update (\<lambda>_. size'));
     s \<leftarrow> assign s new_hunk_ptr (next_ptr_update (\<lambda>_. next_hunk_ptr));
     next_hunk \<leftarrow> deref s next_hunk_ptr;
     s \<leftarrow> assign s new_hunk_ptr (prev_ptr_update (\<lambda>_. prev_ptr next_hunk));
     next_hunk \<leftarrow> deref s next_hunk_ptr;
     s \<leftarrow> assign s (prev_ptr next_hunk) (next_ptr_update (\<lambda>_. new_hunk_ptr));
     s \<leftarrow> assign s next_hunk_ptr (prev_ptr_update (\<lambda>_. new_hunk_ptr));
     s \<leftarrow> link_lru s new_hunk_ptr;
     Some (new_hunk_ptr, s\<lparr>mem_allocated_size := mem_allocated_size s + size'\<rparr>)
   }"

definition try_alloc_tail :: "mm \<Rightarrow> size_t \<Rightarrow> (addr \<times> mm) option" where
  "try_alloc_tail s size' = do {
     let head_hunk_ptr = get_head_hunk s;
     let pool_end = mem_arena_ptr s + unat (mem_total_size s);
     head \<leftarrow> deref s head_hunk_ptr;
     last_hunk \<leftarrow> deref s (prev_ptr head);
     let last_hunk_end = prev_ptr head + unat (size_field last_hunk);
     if pool_end \<ge> last_hunk_end + unat size'
     then place_hunk s size' last_hunk_end head_hunk_ptr
     else Some (nullptr, s)
   }"

partial_function (option) try_alloc_walk ::
    "mm \<Rightarrow> size_t \<Rightarrow> addr \<Rightarrow> addr \<Rightarrow> (addr \<times> mm) option" where
  "try_alloc_walk s size' current_hunk_ptr next_hunk_ptr = do {
     current \<leftarrow> deref s current_hunk_ptr;
     let current_end = current_hunk_ptr + unat (size_field current);
     let next_start = next_hunk_ptr;
     if next_start \<ge> current_end + unat size'
     then place_hunk s size' current_end next_hunk_ptr
     else do {
       next_hunk \<leftarrow> deref s next_hunk_ptr;
       if next_ptr next_hunk \<noteq> get_head_hunk s
       then try_alloc_walk s size' next_hunk_ptr (next_ptr next_hunk)
       else try_alloc_tail s size'
     }
   }"

declare try_alloc_walk.simps [code]

definition try_alloc :: "mm \<Rightarrow> size_t \<Rightarrow> (addr \<times> mm) option" where
  "try_alloc s size' = do {
     let head_hunk_ptr = get_head_hunk s;
     head \<leftarrow> deref s head_hunk_ptr;
     try_alloc_walk s size' head_hunk_ptr (next_ptr head)
   }"

definition real_get_buffer :: "mm \<Rightarrow> addr \<Rightarrow> (addr \<times> mm) option" where
  "real_get_buffer s handle_ptr = do {
     hunk_ptr \<leftarrow> get_hunk_ptr s handle_ptr;
     if hunk_ptr = nullptr then Some (nullptr, s)
     else do {
       s \<leftarrow> unlink_lru s hunk_ptr;
       s \<leftarrow> link_lru s hunk_ptr;
       Some (data_ptr hunk_ptr, s)
     }
   }"

definition real_free :: "mm \<Rightarrow> addr \<Rightarrow> mm option" where
  "real_free s handle_ptr = do {
     hunk_ptr \<leftarrow> get_hunk_ptr s handle_ptr;
     hunk \<leftarrow> deref s hunk_ptr;
     s \<leftarrow> assign s (prev_ptr hunk) (next_ptr_update (\<lambda>_. next_ptr hunk));
     hunk \<leftarrow> deref s hunk_ptr;
     s \<leftarrow> assign s (next_ptr hunk) (prev_ptr_update (\<lambda>_. prev_ptr hunk));
     s \<leftarrow> assign s hunk_ptr (prev_ptr_update (\<lambda>_. nullptr));
     s \<leftarrow> assign s hunk_ptr (next_ptr_update (\<lambda>_. nullptr));
     hunk \<leftarrow> deref s hunk_ptr;
     let s = s\<lparr>mem_allocated_size := mem_allocated_size s - size_field hunk\<rparr>;
     s \<leftarrow> assign s hunk_ptr (size_field_update (\<lambda>_. 0));
     s \<leftarrow> unlink_lru s hunk_ptr;
     let s = destroy_hunk s hunk_ptr;
     set_hunk_ptr s handle_ptr nullptr
   }"

partial_function (option) real_alloc_loop :: "mm \<Rightarrow> addr \<Rightarrow> size_t \<Rightarrow> (addr \<times> mm) option" where
  "real_alloc_loop s handle_ptr aligned_size = do {
     let head_hunk_ptr = get_head_hunk s;
     (hunk_ptr, s) \<leftarrow> try_alloc s aligned_size;
     if hunk_ptr \<noteq> nullptr then do {
       s \<leftarrow> assign s hunk_ptr (handler_ptr_update (\<lambda>_. handle_ptr));
       s \<leftarrow> set_hunk_ptr s handle_ptr hunk_ptr;
       Some (data_ptr hunk_ptr, s)
     } else do {
       head \<leftarrow> deref s head_hunk_ptr;
       if head_hunk_ptr \<noteq> least_recent_ptr head then do {
         lru_hunk \<leftarrow> deref s (least_recent_ptr head);
         s \<leftarrow> real_free s (handler_ptr lru_hunk);
         real_alloc_loop s handle_ptr aligned_size
       } else Some (nullptr, s)
     }
   }"

declare real_alloc_loop.simps [code]

definition real_alloc :: "mm \<Rightarrow> addr \<Rightarrow> size_t \<Rightarrow> (addr \<times> mm) option" where
  "real_alloc s handle_ptr size' =
     (let aligned_size = (size' + sizeof_LRUMemoryHunk + ALIGNMENT_MASK) AND NOT ALIGNMENT_MASK
      in real_alloc_loop s handle_ptr aligned_size)"

partial_function (option) flush :: "mm \<Rightarrow> mm option" where
  "flush s = do {
     let head_hunk_ptr = get_head_hunk s;
     head \<leftarrow> deref s head_hunk_ptr;
     if next_ptr head \<noteq> head_hunk_ptr then do {
       first_hunk \<leftarrow> deref s (next_ptr head);
       s \<leftarrow> real_free s (handler_ptr first_hunk);
       flush s
     } else Some s
   }"

declare flush.simps [code]

text \<open>The public entry points are the inline wrappers of the header.\<close>

definition alloc :: "mm \<Rightarrow> addr \<Rightarrow> size_t \<Rightarrow> (addr \<times> mm) option" where
  "alloc s handle_ptr size' = real_alloc s handle_ptr size'"

definition free :: "mm \<Rightarrow> addr \<Rightarrow> mm option" where
  "free s handle_ptr = real_free s handle_ptr"

definition get_buffer_and_refresh :: "mm \<Rightarrow> addr \<Rightarrow> (addr \<times> mm) option" where
  "get_buffer_and_refresh s handle_ptr = real_get_buffer s handle_ptr"

definition get_allocated_memory_size :: "mm \<Rightarrow> size_t" where
  "get_allocated_memory_size s = mem_allocated_size s"

text \<open>Iterators compare by the handle pointer they hold.\<close>

definition begin_iter :: "mm \<Rightarrow> bool \<Rightarrow> addr option" where
  "begin_iter s is_lru_order = do {
     head \<leftarrow> deref s (get_head_hunk s);
     first_hunk \<leftarrow> deref s (if is_lru_order then most_recent_ptr head else next_ptr head);
     Some (handler_ptr first_hunk)
   }"

definition end_iter :: "mm \<Rightarrow> addr option" where
  "end_iter s = do {
     head \<leftarrow> deref s (get_head_hunk s);
     Some (handler_ptr head)
   }"

section \<open>Reading the store\<close>

text \<open>
  The proofs look at the store field by field. \<open>hunk s a\<close> is the header at \<open>a\<close> (the
  default-initialised one where none is constructed), \<open>live s\<close> the set of addresses that
  hold a header, and \<open>modify s p f\<close> the store after an assignment through \<open>p\<close>.
  \<open>nextF s\<close>, \<open>prevF s\<close>, \<open>mrF s\<close>, \<open>lrF s\<close>, \<open>ownerF s\<close> and \<open>bytesF s\<close> are the six members
  as functions of the address.
\<close>

fun links :: "(addr \<Rightarrow> addr) \<Rightarrow> addr list \<Rightarrow> bool" where
  "links nx (x # y # r) = (nx x = y \<and> links nx (y # r))"
| "links nx [x] = True"
| "links nx [] = True"

definition ring :: "(addr \<Rightarrow> addr) \<Rightarrow> (addr \<Rightarrow> addr) \<Rightarrow> addr \<Rightarrow> addr list \<Rightarrow> bool" where
  "ring nx pv b xs \<longleftrightarrow> links nx (b # xs @ [b]) \<and> links pv (b # rev xs @ [b])"

definition hunk :: "mm \<Rightarrow> addr \<Rightarrow> LRUMemoryHunk" where
  "hunk s a = (case hunk_at s a of None \<Rightarrow> LRUMemoryHunk_init | Some h \<Rightarrow> h)"

definition live :: "mm \<Rightarrow> addr set" where
  "live s = dom (hunk_at s)"

definition valid :: "mm \<Rightarrow> addr \<Rightarrow> bool" where
  "valid s p \<longleftrightarrow> p \<noteq> nullptr \<and> p \<in> live s"

definition modify :: "mm \<Rightarrow> addr \<Rightarrow> (LRUMemoryHunk \<Rightarrow> LRUMemoryHunk) \<Rightarrow> mm" where
  "modify s p f = s\<lparr>hunk_at := (hunk_at s)(p \<mapsto> f (hunk s p))\<rparr>"

abbreviation nextF :: "mm \<Rightarrow> addr \<Rightarrow> addr" where "nextF s \<equiv> (\<lambda>a. next_ptr (hunk s a))"

abbreviation prevF :: "mm \<Rightarrow> addr \<Rightarrow> addr" where "prevF s \<equiv> (\<lambda>a. prev_ptr (hunk s a))"

abbreviation mrF :: "mm \<Rightarrow> addr \<Rightarrow> addr" where "mrF s \<equiv> (\<lambda>a. most_recent_ptr (hunk s a))"

abbreviation lrF :: "mm \<Rightarrow> addr \<Rightarrow> addr" where "lrF s \<equiv> (\<lambda>a. least_recent_ptr (hunk s a))"

abbreviation ownerF :: "mm \<Rightarrow> addr \<Rightarrow> addr" where "ownerF s \<equiv> (\<lambda>a. handler_ptr (hunk s a))"

abbreviation bytesF :: "mm \<Rightarrow> addr \<Rightarrow> nat" where "bytesF s \<equiv> (\<lambda>a. unat (size_field (hunk s a)))"

definition lru_frame :: "mm \<Rightarrow> mm \<Rightarrow> bool" where
  "lru_frame s s' \<longleftrightarrow>
     mem_total_size s' = mem_total_size s \<and> mem_allocated_size s' = mem_allocated_size s \<and>
     mem_arena_ptr s' = mem_arena_ptr s \<and> handle_at s' = handle_at s \<and> live s' = live s \<and>
     nextF s' = nextF s \<and> prevF s' = prevF s \<and> ownerF s' = ownerF s \<and>
     (\<lambda>a. size_field (hunk s' a)) = (\<lambda>a. size_field (hunk s a))"

fun laid_out :: "(addr \<Rightarrow> nat) \<Rightarrow> addr \<Rightarrow> addr list \<Rightarrow> addr \<Rightarrow> bool" where
  "laid_out sz c [] e = (c + sz c \<le> e)"
| "laid_out sz c (x # xs) e = (c + sz c \<le> x \<and> laid_out sz x xs e)"

definition rings_ok :: "mm \<Rightarrow> addr list \<Rightarrow> addr list \<Rightarrow> bool" where
  "rings_ok s as ls \<longleftrightarrow>
     mem_arena_ptr s \<noteq> nullptr \<and> nullptr \<notin> set as \<and>
     live s = set (mem_arena_ptr s # as) \<and> distinct (mem_arena_ptr s # as) \<and>
     ring (nextF s) (prevF s) (mem_arena_ptr s) as \<and>
     ring (mrF s) (lrF s) (mem_arena_ptr s) ls \<and>
     set ls = set as \<and> distinct ls"

definition layout_ok :: "mm \<Rightarrow> addr list \<Rightarrow> bool" where
  "layout_ok s as \<longleftrightarrow>
     size_field (hunk s (mem_arena_ptr s)) = sizeof_LRUMemoryHunk \<and>
     laid_out (bytesF s) (mem_arena_ptr s) as (mem_arena_ptr s + unat (mem_total_size s)) \<and>
     (\<forall>a \<in> set as. unat sizeof_LRUMemoryHunk \<le> bytesF s a \<and>
        unat MEMORY_ALIGNMENT dvd bytesF s a) \<and>
     unat (mem_allocated_size s) = sum_list (map (bytesF s) (mem_arena_ptr s # as))"

definition handles_ok :: "mm \<Rightarrow> addr list \<Rightarrow> bool" where
  "handles_ok s as \<longleftrightarrow>
     ownerF s (mem_arena_ptr s) = nullptr \<and>
     (\<forall>a \<in> set as. ownerF s a \<noteq> nullptr \<and> handle_at s (ownerF s a) = a) \<and>
     (\<forall>h. handle_at s h \<noteq> nullptr \<longrightarrow>
        handle_at s h \<in> set as \<and> ownerF s (handle_at s h) = h)"

definition well_formed :: "mm \<Rightarrow> addr list \<Rightarrow> addr list \<Rightarrow> bool" where
  "well_formed s as ls \<longleftrightarrow> rings_ok s as ls \<and> layout_ok s as \<and> handles_ok s as"

fun first_fit :: "(addr \<Rightarrow> nat) \<Rightarrow> nat \<Rightarrow> addr \<Rightarrow> addr list \<Rightarrow> addr \<Rightarrow> nat option" where
  "first_fit sz r c [] e = (if c + sz c + r \<le> e then Some 0 else None)"
| "first_fit sz r c (x # xs) e =
     (if c + sz c + r \<le> x then Some 0 else map_option Suc (first_fit sz r x xs e))"

definition pool_end :: "mm \<Rightarrow> addr" where
  "pool_end s = mem_arena_ptr s + unat (mem_total_size s)"

definition place_at :: "mm \<Rightarrow> size_t \<Rightarrow> addr \<Rightarrow> addr list \<Rightarrow> (addr \<times> mm) option" where
  "place_at s w c rest =
     (case first_fit (bytesF s) (unat w) c rest (pool_end s) of
        None \<Rightarrow> Some (nullptr, s)
      | Some i \<Rightarrow>
          place_hunk s w (last (c # take i rest) + bytesF s (last (c # take i rest)))
            (hd (drop i rest @ [mem_arena_ptr s])))"

definition evict_lru :: "mm \<Rightarrow> mm option" where
  "evict_lru s = do {
     head \<leftarrow> deref s (get_head_hunk s);
     lru_hunk \<leftarrow> deref s (least_recent_ptr head);
     real_free s (handler_ptr lru_hunk)
   }"

fun evict_n :: "nat \<Rightarrow> mm \<Rightarrow> mm option" where
  "evict_n 0 s = Some s"
| "evict_n (Suc k) s = evict_lru s \<bind> evict_n k"

definition aligned_size :: "size_t \<Rightarrow> size_t" where
  "aligned_size n = (n + sizeof_LRUMemoryHunk + ALIGNMENT_MASK) AND NOT ALIGNMENT_MASK"

fun release_in_order :: "mm \<Rightarrow> addr list \<Rightarrow> mm option" where
  "release_in_order s [] = Some s"
| "release_in_order s (a # as) =
     real_free s (handler_ptr (hunk s a)) \<bind> (\<lambda>s'. release_in_order s' as)"

definition arena0 :: mm where
  "arena0 =
     \<lparr>mem_total_size = 2048, mem_allocated_size = 48, mem_arena_ptr = 1000,
      hunk_at = [1000 \<mapsto> \<lparr>size_field = 48, handler_ptr = nullptr, prev_ptr = 1000, next_ptr = 1000,
                            least_recent_ptr = 1000, most_recent_ptr = 1000\<rparr>],
      handle_at = (\<lambda>_. nullptr)\<rparr>"

definition arena1 :: mm where
  "arena1 =
     \<lparr>mem_total_size = 2048, mem_allocated_size = 352, mem_arena_ptr = 1000,
      hunk_at = [1000 \<mapsto> \<lparr>size_field = 48, handler_ptr = nullptr, prev_ptr = 1048, next_ptr = 1048,
                            least_recent_ptr = 1048, most_recent_ptr = 1048\<rparr>,
                 1048 \<mapsto> \<lparr>size_field = 304, handler_ptr = 1, prev_ptr = 1000, next_ptr = 1000,
                            least_recent_ptr = 1000, most_recent_ptr = 1000\<rparr>],
      handle_at = (\<lambda>_. nullptr)(1 := 1048)\<rparr>"

definition arena2 :: mm where
  "arena2 =
     \<lparr>mem_total_size = 2048, mem_allocated_size = 656, mem_arena_ptr = 1000,
      hunk_at = [1000 \<mapsto> \<lparr>size_field = 48, handler_ptr = nullptr, prev_ptr = 1656, next_ptr = 1048,
                            least_recent_ptr = 1656, most_recent_ptr = 1048\<rparr>,
                 1048 \<mapsto> \<lparr>size_field = 304, handler_ptr = 2, prev_ptr = 1000, next_ptr = 1656,
                            least_recent_ptr = 1000, most_recent_ptr = 1656\<rparr>,
                 1656 \<mapsto> \<lparr>size_field = 304, handler_ptr = 1, prev_ptr = 1048, next_ptr = 1000,
                            least_recent_ptr = 1048, most_recent_ptr = 1000\<rparr>],
      handle_at = (\<lambda>_. nullptr)(1 := 1656, 2 := 1048)\<rparr>"

text \<open>
  Modelled on the spec's \<^verbatim>\<open>round_up(x, 16)\<close>: \<open>x\<close> rounded up to a multiple of \<open>a\<close>, on the
  natural numbers.
\<close>

definition round_up :: "nat \<Rightarrow> nat \<Rightarrow> nat" where
  "round_up x a = (x + a - 1) div a * a"

text \<open>
  First-fit in the spec's words: \<open>gaps\<close> lists, for each adjacent pair of the address ring
  and then for the last hunk and the end of the pool, the low edge of the gap and its size;
  \<open>first_fit_spec\<close> is the low edge of the first gap that is large enough.
\<close>

fun gaps :: "(addr \<Rightarrow> nat) \<Rightarrow> addr \<Rightarrow> addr list \<Rightarrow> addr \<Rightarrow> (addr \<times> nat) list" where
  "gaps sz c [] e = [(c + sz c, e - (c + sz c))]"
| "gaps sz c (x # xs) e = (c + sz c, x - (c + sz c)) # gaps sz x xs e"

definition first_fit_spec :: "nat \<Rightarrow> (addr \<times> nat) list \<Rightarrow> addr option" where
  "first_fit_spec r gs = map_option fst (find (\<lambda>(lo, g). r \<le> g) gs)"

section \<open>Lemmas\<close>

lemma links_append: "links nx (xs @ y # ys) = (links nx (xs @ [y]) \<and> links nx (y # ys))"
  by (induction nx xs rule: links.induct) auto

lemma links_frame: "u \<notin> set (butlast xs) \<Longrightarrow> links (nx(u := v)) xs = links nx xs"
  by (induction nx xs rule: links.induct) auto

lemma links_insert:
  assumes "links nx (l1 @ c # x # l2)"
    and "c \<notin> set l1" "p \<notin> set l1" "p \<noteq> c"
    and "p \<notin> set (butlast (x # l2))" "c \<notin> set (butlast (x # l2))"
  shows "links (nx(p := x, c := p)) (l1 @ c # p # x # l2)"
proof -
  from assms(1) have a: "links nx (l1 @ [c])" and b: "links nx (x # l2)"
    using links_append[of nx l1 c "x # l2"] by auto
  have "links (nx(p := x, c := p)) (l1 @ [c])"
    using a assms by (simp add: links_frame butlast_append)
  moreover have "links (nx(p := x, c := p)) (x # l2)"
    using b assms by (simp add: links_frame)
  ultimately show ?thesis
    using assms(4) links_append[of "nx(p := x, c := p)" l1 c "p # x # l2"] by simp
qed

lemma links_remove:
  assumes "links nx (l1 @ c # p # x # l2)"
    and "c \<notin> set l1" "c \<notin> set (butlast (x # l2))"
  shows "links (nx(c := x)) (l1 @ c # x # l2)"
proof -
  from assms(1) have a: "links nx (l1 @ [c])" and b: "links nx (x # l2)"
    using links_append[of nx l1 c "p # x # l2"] by auto
  have "links (nx(c := x)) (l1 @ [c])"
    using a assms by (simp add: links_frame butlast_append)
  moreover have "links (nx(c := x)) (x # l2)"
    using b assms by (simp add: links_frame)
  ultimately show ?thesis
    using links_append[of "nx(c := x)" l1 c "x # l2"] by simp
qed

lemma links_step: "links nx (l1 @ c # x # l2) \<Longrightarrow> nx c = x"
  using links_append[of nx l1 c "x # l2"] by simp

lemma cyc_split:
  "b # (xs @ zs @ ys) @ [b] =
     butlast (b # xs) @ last (b # xs) # zs @ hd (ys @ [b]) # tl (ys @ [b])"
proof -
  have "b # (xs @ zs @ ys) @ [b] = (butlast (b # xs) @ [last (b # xs)]) @ zs @ (ys @ [b])"
    by (simp only: append_butlast_last_id list.distinct not_False_eq_True append_Cons append_assoc)
  also have "ys @ [b] = hd (ys @ [b]) # tl (ys @ [b])"
    by simp
  finally show ?thesis by simp
qed

lemma cyc_split_rev:
  "b # rev (xs @ zs @ ys) @ [b] =
     butlast (b # rev ys) @ hd (ys @ [b]) # rev zs @ last (b # xs) # tl (rev xs @ [b])"
proof -
  have "b # rev (xs @ zs @ ys) @ [b] = b # (rev ys @ rev zs @ rev xs) @ [b]"
    by simp
  also have "\<dots> = butlast (b # rev ys) @ last (b # rev ys) # rev zs @
      hd (rev xs @ [b]) # tl (rev xs @ [b])"
    by (rule cyc_split)
  also have "last (b # rev ys) = hd (ys @ [b])"
    by (cases ys) auto
  also have "hd (rev xs @ [b]) = last (b # xs)"
    by (cases xs rule: rev_cases) auto
  finally show ?thesis .
qed

lemma butlast_hd_tl: "butlast (hd (ys @ [b]) # tl (ys @ [b])) = ys"
proof -
  have "hd (ys @ [b]) # tl (ys @ [b]) = ys @ [b]" by simp
  then show ?thesis by (simp only: butlast_snoc)
qed

lemma last_notin_butlast: "distinct (b # xs) \<Longrightarrow> last (b # xs) \<notin> set (butlast (b # xs))"
  by (metis append_butlast_last_id distinct_butlast not_distinct_conv_prefix list.distinct(1))

lemma last_in: "last (b # xs) \<in> set (b # xs)"
  by (rule last_in_set) simp

lemma hd_in: "hd (ys @ [b]) \<in> set (b # ys)"
  by (cases ys) auto

lemma ring_split:
  "ring nx pv b (xs @ zs @ ys) \<longleftrightarrow>
     links nx (butlast (b # xs) @ last (b # xs) # zs @ hd (ys @ [b]) # tl (ys @ [b])) \<and>
     links pv (butlast (b # rev ys) @ hd (ys @ [b]) # rev zs @ last (b # xs) # tl (rev xs @ [b]))"
  unfolding ring_def by (simp only: cyc_split cyc_split_rev)

lemma ring_split0:
  "ring nx pv b (xs @ ys) \<longleftrightarrow>
     links nx (butlast (b # xs) @ last (b # xs) # hd (ys @ [b]) # tl (ys @ [b])) \<and>
     links pv (butlast (b # rev ys) @ hd (ys @ [b]) # last (b # xs) # tl (rev xs @ [b]))"
  using ring_split[of nx pv b xs "[]" ys] by (simp only: append_Nil rev.simps)

lemma ring_split1:
  "ring nx pv b (xs @ p # ys) \<longleftrightarrow>
     links nx (butlast (b # xs) @ last (b # xs) # p # hd (ys @ [b]) # tl (ys @ [b])) \<and>
     links pv (butlast (b # rev ys) @ hd (ys @ [b]) # p # last (b # xs) # tl (rev xs @ [b]))"
  using ring_split[of nx pv b xs "[p]" ys] by (simp only: append_Nil append_Cons rev.simps)

lemma butlast_rev_tl: "butlast (last (b # xs) # tl (rev xs @ [b])) = rev xs"
  by (cases xs rule: rev_cases) auto

lemma hd_notin_butlast_rev:
  "distinct (b # ys) \<Longrightarrow> hd (ys @ [b]) \<notin> set (butlast (b # rev ys))"
  by (cases ys) (auto simp: butlast_append)

lemma ring_succ:
  assumes "ring nx pv b (xs @ ys)"
  shows "nx (last (b # xs)) = hd (ys @ [b])" "pv (hd (ys @ [b])) = last (b # xs)"
  using assms links_step unfolding ring_split0 by blast+

lemma ring_insert:
  assumes r: "ring nx pv b (xs @ ys)" and dist: "distinct (b # xs @ ys)"
    and p: "p \<notin> set (b # xs @ ys)"
    and c: "c = last (b # xs)" and x: "x = hd (ys @ [b])"
  shows "ring (nx(p := x, c := p)) (pv(p := c, x := p)) b (xs @ p # ys)"
proof -
  have cin: "c \<in> set (b # xs)" unfolding c by (rule last_in)
  have xin: "x \<in> set (b # ys)" unfolding x by (rule hd_in)
  have dx: "distinct (b # xs)" and dy: "distinct (b # ys)"
    using dist by auto
  have pb: "p \<notin> set (b # xs)" "p \<notin> set (b # rev ys)" using p by auto
  have 1: "links (nx(p := x, c := p)) (butlast (b # xs) @ c # p # x # tl (ys @ [b]))"
  proof (rule links_insert)
    show "links nx (butlast (b # xs) @ c # x # tl (ys @ [b]))"
      using r unfolding ring_split0 c x by blast
    show "c \<notin> set (butlast (b # xs))" unfolding c using dx by (rule last_notin_butlast)
    show "p \<notin> set (butlast (b # xs))" using pb(1) in_set_butlastD by fast
    show "p \<noteq> c" using cin p by auto
    show "p \<notin> set (butlast (x # tl (ys @ [b])))" unfolding x butlast_hd_tl using p by simp
    show "c \<notin> set (butlast (x # tl (ys @ [b])))" unfolding x butlast_hd_tl using cin dist by auto
  qed
  have 2: "links (pv(p := c, x := p)) (butlast (b # rev ys) @ x # p # c # tl (rev xs @ [b]))"
  proof (rule links_insert)
    show "links pv (butlast (b # rev ys) @ x # c # tl (rev xs @ [b]))"
      using r unfolding ring_split0 c x by blast
    show "x \<notin> set (butlast (b # rev ys))" unfolding x using dy by (rule hd_notin_butlast_rev)
    show "p \<notin> set (butlast (b # rev ys))" using pb(2) in_set_butlastD by fast
    show "p \<noteq> x" using xin p by auto
    show "p \<notin> set (butlast (c # tl (rev xs @ [b])))" unfolding c butlast_rev_tl using p by simp
    show "x \<notin> set (butlast (c # tl (rev xs @ [b])))" unfolding c butlast_rev_tl using xin dist by auto
  qed
  show ?thesis unfolding ring_split1
    using 1 2 unfolding c x by blast
qed

lemma ring_remove:
  assumes r: "ring nx pv b (xs @ p # ys)" and dist: "distinct (b # xs @ p # ys)"
    and c: "c = last (b # xs)" and x: "x = hd (ys @ [b])"
  shows "ring (nx(c := x)) (pv(x := c)) b (xs @ ys)"
proof -
  have cin: "c \<in> set (b # xs)" unfolding c by (rule last_in)
  have xin: "x \<in> set (b # ys)" unfolding x by (rule hd_in)
  have dx: "distinct (b # xs)" and dy: "distinct (b # ys)"
    using dist by auto
  have 1: "links (nx(c := x)) (butlast (b # xs) @ c # x # tl (ys @ [b]))"
  proof (rule links_remove)
    show "links nx (butlast (b # xs) @ c # p # x # tl (ys @ [b]))"
      using r unfolding ring_split1 c x by blast
    show "c \<notin> set (butlast (b # xs))" unfolding c using dx by (rule last_notin_butlast)
    show "c \<notin> set (butlast (x # tl (ys @ [b])))" unfolding x butlast_hd_tl using cin dist by auto
  qed
  have 2: "links (pv(x := c)) (butlast (b # rev ys) @ x # c # tl (rev xs @ [b]))"
  proof (rule links_remove)
    show "links pv (butlast (b # rev ys) @ x # p # c # tl (rev xs @ [b]))"
      using r unfolding ring_split1 c x by blast
    show "x \<notin> set (butlast (b # rev ys))" unfolding x using dy by (rule hd_notin_butlast_rev)
    show "x \<notin> set (butlast (c # tl (rev xs @ [b])))" unfolding c butlast_rev_tl using xin dist by auto
  qed
  show ?thesis unfolding ring_split0
    using 1 2 unfolding c x by blast
qed

lemma ring_frame1:
  "u \<notin> set (b # xs) \<Longrightarrow> ring (nx(u := v)) pv b xs = ring nx pv b xs"
  unfolding ring_def by (simp add: links_frame butlast_append)

lemma ring_frame2:
  "u \<notin> set (b # xs) \<Longrightarrow> ring nx (pv(u := w)) b xs = ring nx pv b xs"
  unfolding ring_def by (simp add: links_frame butlast_append)

lemma deref_valid: "valid s p \<Longrightarrow> deref s p = Some (hunk s p)"
  by (auto simp: valid_def deref_def hunk_def live_def)

lemma assign_valid: "valid s p \<Longrightarrow> assign s p f = Some (modify s p f)"
  by (simp add: assign_def deref_valid modify_def)

lemma hunk_modify: "hunk (modify s p f) = (hunk s)(p := f (hunk s p))"
  by (auto simp: hunk_def modify_def)

lemma valid_modify: "valid (modify s q f) p \<longleftrightarrow> valid s p \<or> (p = q \<and> p \<noteq> nullptr)"
  by (auto simp: valid_def live_def modify_def)

lemma live_modify: "valid s p \<Longrightarrow> live (modify s p f) = live s"
  by (auto simp: valid_def live_def modify_def)

lemma modify_fields:
  "mem_total_size (modify s p f) = mem_total_size s"
  "mem_allocated_size (modify s p f) = mem_allocated_size s"
  "mem_arena_ptr (modify s p f) = mem_arena_ptr s"
  "handle_at (modify s p f) = handle_at s"
  "get_head_hunk (modify s p f) = get_head_hunk s"
  by (simp_all add: modify_def get_head_hunk_def)

lemma expects_bind: "(expects c \<bind> k) = (if c then k () else None)"
  by (simp add: expects_def)

lemma link_lru_effect:
  assumes "valid s p" "valid s (mem_arena_ptr s)" "valid s (mrF s (mem_arena_ptr s))"
    and "mrF s p = nullptr" "lrF s p = nullptr"
  shows "\<exists>s'. link_lru s p = Some s' \<and> lru_frame s s' \<and>
           mrF s' = (mrF s)(p := mrF s (mem_arena_ptr s), mem_arena_ptr s := p) \<and>
           lrF s' = (lrF s)(mrF s (mem_arena_ptr s) := p, p := mem_arena_ptr s)"
  using assms
  apply (simp add: link_lru_def expects_bind deref_valid assign_valid valid_modify hunk_modify
      modify_fields get_head_hunk_def Let_def lru_frame_def live_modify)
  apply (auto simp: valid_def fun_eq_iff)
  done

lemma unlink_lru_effect:
  assumes "valid s p" "valid s (mrF s p)" "valid s (lrF s p)" "mrF s p \<noteq> p"
  shows "\<exists>s'. unlink_lru s p = Some s' \<and> lru_frame s s' \<and>
           mrF s' = (mrF s)(lrF s p := mrF s p, p := nullptr) \<and>
           lrF s' = (lrF s)(mrF s p := lrF s p, p := nullptr)"
  using assms
  apply (simp add: unlink_lru_def expects_bind deref_valid assign_valid valid_modify hunk_modify
      modify_fields get_head_hunk_def Let_def lru_frame_def live_modify)
  apply (auto simp: valid_def fun_eq_iff)
  done

lemma modify_field:
  "size_field (hunk (modify s p (size_field_update (\<lambda>_. v0))) a) = (if a = p then v0 else size_field (hunk s a))"
  "size_field (hunk (modify s p (handler_ptr_update (\<lambda>_. v1))) a) = size_field (hunk s a)"
  "size_field (hunk (modify s p (prev_ptr_update (\<lambda>_. v2))) a) = size_field (hunk s a)"
  "size_field (hunk (modify s p (next_ptr_update (\<lambda>_. v3))) a) = size_field (hunk s a)"
  "size_field (hunk (modify s p (least_recent_ptr_update (\<lambda>_. v4))) a) = size_field (hunk s a)"
  "size_field (hunk (modify s p (most_recent_ptr_update (\<lambda>_. v5))) a) = size_field (hunk s a)"
  "handler_ptr (hunk (modify s p (size_field_update (\<lambda>_. v0))) a) = handler_ptr (hunk s a)"
  "handler_ptr (hunk (modify s p (handler_ptr_update (\<lambda>_. v1))) a) = (if a = p then v1 else handler_ptr (hunk s a))"
  "handler_ptr (hunk (modify s p (prev_ptr_update (\<lambda>_. v2))) a) = handler_ptr (hunk s a)"
  "handler_ptr (hunk (modify s p (next_ptr_update (\<lambda>_. v3))) a) = handler_ptr (hunk s a)"
  "handler_ptr (hunk (modify s p (least_recent_ptr_update (\<lambda>_. v4))) a) = handler_ptr (hunk s a)"
  "handler_ptr (hunk (modify s p (most_recent_ptr_update (\<lambda>_. v5))) a) = handler_ptr (hunk s a)"
  "prev_ptr (hunk (modify s p (size_field_update (\<lambda>_. v0))) a) = prev_ptr (hunk s a)"
  "prev_ptr (hunk (modify s p (handler_ptr_update (\<lambda>_. v1))) a) = prev_ptr (hunk s a)"
  "prev_ptr (hunk (modify s p (prev_ptr_update (\<lambda>_. v2))) a) = (if a = p then v2 else prev_ptr (hunk s a))"
  "prev_ptr (hunk (modify s p (next_ptr_update (\<lambda>_. v3))) a) = prev_ptr (hunk s a)"
  "prev_ptr (hunk (modify s p (least_recent_ptr_update (\<lambda>_. v4))) a) = prev_ptr (hunk s a)"
  "prev_ptr (hunk (modify s p (most_recent_ptr_update (\<lambda>_. v5))) a) = prev_ptr (hunk s a)"
  "next_ptr (hunk (modify s p (size_field_update (\<lambda>_. v0))) a) = next_ptr (hunk s a)"
  "next_ptr (hunk (modify s p (handler_ptr_update (\<lambda>_. v1))) a) = next_ptr (hunk s a)"
  "next_ptr (hunk (modify s p (prev_ptr_update (\<lambda>_. v2))) a) = next_ptr (hunk s a)"
  "next_ptr (hunk (modify s p (next_ptr_update (\<lambda>_. v3))) a) = (if a = p then v3 else next_ptr (hunk s a))"
  "next_ptr (hunk (modify s p (least_recent_ptr_update (\<lambda>_. v4))) a) = next_ptr (hunk s a)"
  "next_ptr (hunk (modify s p (most_recent_ptr_update (\<lambda>_. v5))) a) = next_ptr (hunk s a)"
  "least_recent_ptr (hunk (modify s p (size_field_update (\<lambda>_. v0))) a) = least_recent_ptr (hunk s a)"
  "least_recent_ptr (hunk (modify s p (handler_ptr_update (\<lambda>_. v1))) a) = least_recent_ptr (hunk s a)"
  "least_recent_ptr (hunk (modify s p (prev_ptr_update (\<lambda>_. v2))) a) = least_recent_ptr (hunk s a)"
  "least_recent_ptr (hunk (modify s p (next_ptr_update (\<lambda>_. v3))) a) = least_recent_ptr (hunk s a)"
  "least_recent_ptr (hunk (modify s p (least_recent_ptr_update (\<lambda>_. v4))) a) = (if a = p then v4 else least_recent_ptr (hunk s a))"
  "least_recent_ptr (hunk (modify s p (most_recent_ptr_update (\<lambda>_. v5))) a) = least_recent_ptr (hunk s a)"
  "most_recent_ptr (hunk (modify s p (size_field_update (\<lambda>_. v0))) a) = most_recent_ptr (hunk s a)"
  "most_recent_ptr (hunk (modify s p (handler_ptr_update (\<lambda>_. v1))) a) = most_recent_ptr (hunk s a)"
  "most_recent_ptr (hunk (modify s p (prev_ptr_update (\<lambda>_. v2))) a) = most_recent_ptr (hunk s a)"
  "most_recent_ptr (hunk (modify s p (next_ptr_update (\<lambda>_. v3))) a) = most_recent_ptr (hunk s a)"
  "most_recent_ptr (hunk (modify s p (least_recent_ptr_update (\<lambda>_. v4))) a) = most_recent_ptr (hunk s a)"
  "most_recent_ptr (hunk (modify s p (most_recent_ptr_update (\<lambda>_. v5))) a) = (if a = p then v5 else most_recent_ptr (hunk s a))"
  by (simp_all add: hunk_modify)

lemma construct_hunk_eq:
  "p \<noteq> nullptr \<Longrightarrow> construct_hunk s p = Some (s\<lparr>hunk_at := (hunk_at s)(p \<mapsto> LRUMemoryHunk_init)\<rparr>)"
  by (simp add: construct_hunk_def)

lemma hunk_construct: "hunk (s\<lparr>hunk_at := (hunk_at s)(p \<mapsto> h)\<rparr>) a = (if a = p then h else hunk s a)"
  by (auto simp: hunk_def)

lemma valid_construct:
  "valid (s\<lparr>hunk_at := (hunk_at s)(p \<mapsto> h)\<rparr>) q \<longleftrightarrow> valid s q \<or> (q = p \<and> q \<noteq> nullptr)"
  by (auto simp: valid_def live_def)

lemma live_construct: "live (s\<lparr>hunk_at := (hunk_at s)(p \<mapsto> h)\<rparr>) = insert p (live s)"
  by (auto simp: live_def)

lemma live_modify': "live (modify s p f) = insert p (live s)"
  by (auto simp: live_def modify_def)

lemma other_update:
  "hunk (s\<lparr>mem_allocated_size := x\<rparr>) = hunk s"
  "live (s\<lparr>mem_allocated_size := x\<rparr>) = live s"
  "valid (s\<lparr>mem_allocated_size := x\<rparr>) = valid s"
  "hunk (s\<lparr>handle_at := y\<rparr>) = hunk s"
  "live (s\<lparr>handle_at := y\<rparr>) = live s"
  "valid (s\<lparr>handle_at := y\<rparr>) = valid s"
  by (simp_all add: hunk_def live_def valid_def fun_eq_iff)

lemma place_hunk_effect:
  assumes "p \<noteq> nullptr" "p \<notin> live s" "valid s nxt" "valid s (prevF s nxt)"
    and "valid s (mem_arena_ptr s)" "valid s (mrF s (mem_arena_ptr s))"
  shows "\<exists>s'. place_hunk s w p nxt = Some (p, s') \<and>
           mem_total_size s' = mem_total_size s \<and>
           mem_allocated_size s' = mem_allocated_size s + w \<and>
           mem_arena_ptr s' = mem_arena_ptr s \<and> handle_at s' = handle_at s \<and>
           live s' = insert p (live s) \<and>
           nextF s' = (nextF s)(p := nxt, prevF s nxt := p) \<and>
           prevF s' = (prevF s)(p := prevF s nxt, nxt := p) \<and>
           mrF s' = (mrF s)(p := mrF s (mem_arena_ptr s), mem_arena_ptr s := p) \<and>
           lrF s' = (lrF s)(mrF s (mem_arena_ptr s) := p, p := mem_arena_ptr s) \<and>
           ownerF s' = (ownerF s)(p := nullptr) \<and>
           (\<lambda>a. size_field (hunk s' a)) = (\<lambda>a. size_field (hunk s a))(p := w)"
proof -
  have ne: "nxt \<noteq> p" "prevF s nxt \<noteq> p" "mem_arena_ptr s \<noteq> p" "mrF s (mem_arena_ptr s) \<noteq> p"
    using assms by (auto simp: valid_def)
  have li: "nxt \<in> live s" "prevF s nxt \<in> live s" "mem_arena_ptr s \<in> live s"
    "mrF s (mem_arena_ptr s) \<in> live s"
    using assms by (auto simp: valid_def)
  show ?thesis
    using assms ne li
    by (simp add: insert_absorb place_hunk_def link_lru_def expects_bind deref_valid assign_valid valid_modify
      modify_field modify_fields get_head_hunk_def Let_def live_modify' construct_hunk_eq
      hunk_construct valid_construct live_construct LRUMemoryHunk_init_def other_update fun_eq_iff)
qed

lemma hunk_destroy: "hunk (destroy_hunk s p) a = (if a = p then LRUMemoryHunk_init else hunk s a)"
  by (simp add: hunk_def destroy_hunk_def)

lemma live_destroy: "live (destroy_hunk s p) = live s - {p}"
  by (auto simp: live_def destroy_hunk_def)

lemma destroy_fields:
  "mem_total_size (destroy_hunk s p) = mem_total_size s"
  "mem_allocated_size (destroy_hunk s p) = mem_allocated_size s"
  "mem_arena_ptr (destroy_hunk s p) = mem_arena_ptr s"
  "handle_at (destroy_hunk s p) = handle_at s"
  by (simp_all add: destroy_hunk_def)

lemma real_free_effect:
  assumes "h \<noteq> nullptr" "handle_at s h = p" "valid s p"
    and "valid s (prevF s p)" "valid s (nextF s p)" "valid s (mrF s p)" "valid s (lrF s p)"
    and "prevF s p \<noteq> p" "nextF s p \<noteq> p" "mrF s p \<noteq> p" "lrF s p \<noteq> p"
  shows "\<exists>s'. real_free s h = Some s' \<and>
           mem_total_size s' = mem_total_size s \<and>
           mem_allocated_size s' = mem_allocated_size s - size_field (hunk s p) \<and>
           mem_arena_ptr s' = mem_arena_ptr s \<and> handle_at s' = (handle_at s)(h := nullptr) \<and>
           live s' = live s - {p} \<and>
           nextF s' = (nextF s)(prevF s p := nextF s p, p := nullptr) \<and>
           prevF s' = (prevF s)(nextF s p := prevF s p, p := nullptr) \<and>
           mrF s' = (mrF s)(lrF s p := mrF s p, p := nullptr) \<and>
           lrF s' = (lrF s)(mrF s p := lrF s p, p := nullptr) \<and>
           ownerF s' = (ownerF s)(p := nullptr) \<and>
           (\<lambda>a. size_field (hunk s' a)) = (\<lambda>a. size_field (hunk s a))(p := 0)"
proof -
  have li: "p \<in> live s" "prevF s p \<in> live s" "nextF s p \<in> live s" "mrF s p \<in> live s"
    "lrF s p \<in> live s"
    using assms by (auto simp: valid_def)
  have nz: "p \<noteq> nullptr" "prevF s p \<noteq> nullptr" "nextF s p \<noteq> nullptr"
    "mrF s p \<noteq> nullptr" "lrF s p \<noteq> nullptr"
    using assms by (auto simp: valid_def)
  show ?thesis
    using assms li nz
    by (simp add: insert_absorb real_free_def unlink_lru_def get_hunk_ptr_def set_hunk_ptr_def
      expects_bind deref_valid assign_valid valid_modify
      modify_field modify_fields get_head_hunk_def Let_def live_modify'
      LRUMemoryHunk_init_def other_update fun_eq_iff hunk_destroy live_destroy destroy_fields)
qed

lemma ring_at:
  assumes "ring nx pv b (xs @ p # ys)"
  shows "nx p = hd (ys @ [b])" "pv p = last (b # xs)"
proof -
  have "ring nx pv b ((xs @ [p]) @ ys)" using assms by simp
  from ring_succ(1)[OF this] show "nx p = hd (ys @ [b])" by simp
  from ring_succ(2)[OF assms] show "pv p = last (b # xs)" by simp
qed

lemma ring_head:
  assumes "ring nx pv b xs"
  shows "nx b = hd (xs @ [b])" "pv b = last (b # xs)"
proof -
  have "ring nx pv b ([] @ xs)" using assms by simp
  from ring_succ(1)[OF this] show "nx b = hd (xs @ [b])" by simp
  have "ring nx pv b (xs @ [])" using assms by simp
  from ring_succ(2)[OF this] show "pv b = last (b # xs)" by simp
qed

lemma ring_closed:
  assumes "ring nx pv b xs" "a \<in> set (b # xs)"
  shows "nx a \<in> set (b # xs)" "pv a \<in> set (b # xs)"
proof -
  have "nx a \<in> set (b # xs) \<and> pv a \<in> set (b # xs)"
  proof (cases "a = b")
    case True
    then show ?thesis
      using ring_head[OF assms(1)] hd_in[of xs b] last_in[of b xs] by simp
  next
    case False
    then obtain ys zs where xs: "xs = ys @ a # zs"
      using assms(2) by (auto dest: split_list)
    have "hd (zs @ [b]) \<in> set (b # zs)" "last (b # ys) \<in> set (b # ys)"
      by (rule hd_in, rule last_in)
    then show ?thesis
      using ring_at[OF assms(1)[unfolded xs]] unfolding xs by auto
  qed
  then show "nx a \<in> set (b # xs)" "pv a \<in> set (b # xs)" by simp_all
qed

lemma hd_neq: "distinct (b # xs @ p # ys) \<Longrightarrow> hd (ys @ [b]) \<noteq> p"
  using hd_in[of ys b] by auto

lemma last_neq: "distinct (b # xs @ p # ys) \<Longrightarrow> last (b # xs) \<noteq> p"
  using last_in[of b xs] by auto

lemma laid_out_remove: "laid_out sz c (xs @ p # ys) e \<Longrightarrow> laid_out sz c (xs @ ys) e"
proof (induction xs arbitrary: c)
  case Nil
  then show ?case by (cases ys) auto
next
  case (Cons a xs)
  then show ?case by simp
qed

lemma laid_out_cong:
  "(\<And>a. a \<in> set (c # xs) \<Longrightarrow> sz' a = sz a) \<Longrightarrow> laid_out sz' c xs e = laid_out sz c xs e"
  by (induction xs arbitrary: c) auto

lemma sum_list_remove_mid:
  "sum_list (map f (xs @ p # ys)) = (f p :: nat) + sum_list (map f (xs @ ys))"
  by simp

lemma rings_ok_valid: "rings_ok s as ls \<Longrightarrow> a \<in> set (mem_arena_ptr s # as) \<Longrightarrow> valid s a"
  unfolding rings_ok_def valid_def by (cases "a = nullptr") auto

lemma free_rings:
  assumes ok: "rings_ok s as ls" and p: "p \<in> set as" and h: "h \<noteq> nullptr" "handle_at s h = p"
  shows "\<exists>s'. real_free s h = Some s' \<and> rings_ok s' (remove1 p as) (remove1 p ls) \<and>
           mem_total_size s' = mem_total_size s \<and>
           mem_allocated_size s' = mem_allocated_size s - size_field (hunk s p) \<and>
           mem_arena_ptr s' = mem_arena_ptr s \<and> handle_at s' = (handle_at s)(h := nullptr) \<and>
           ownerF s' = (ownerF s)(p := nullptr) \<and>
           (\<lambda>a. size_field (hunk s' a)) = (\<lambda>a. size_field (hunk s a))(p := 0)"
proof -
  define b where "b = mem_arena_ptr s"
  have rk: "b \<noteq> nullptr" "nullptr \<notin> set as" "live s = set (b # as)" "distinct (b # as)"
    "ring (nextF s) (prevF s) b as" "ring (mrF s) (lrF s) b ls" "set ls = set as" "distinct ls"
    using ok unfolding rings_ok_def b_def by auto
  obtain xs ys where as: "as = xs @ p # ys"
    using p by (auto dest: split_list)
  have "p \<in> set ls" using p rk(7) by simp
  then obtain us vs where ls: "ls = us @ p # vs"
    by (auto dest: split_list)
  have dl: "distinct (b # us @ p # vs)" using rk(4,7,8) unfolding ls by auto
  have da: "distinct (b # xs @ p # ys)" using rk(4) unfolding as by simp
  have nx: "nextF s p = hd (ys @ [b])" and pv: "prevF s p = last (b # xs)"
    using ring_at[OF rk(5)[unfolded as]] by simp_all
  have mr: "mrF s p = hd (vs @ [b])" and lr: "lrF s p = last (b # us)"
    using ring_at[OF rk(6)[unfolded ls]] by simp_all
  have ne: "prevF s p \<noteq> p" "nextF s p \<noteq> p" "mrF s p \<noteq> p" "lrF s p \<noteq> p"
    unfolding nx pv mr lr using hd_neq[OF da] last_neq[OF da] hd_neq[OF dl] last_neq[OF dl]
    by simp_all
  have v: "valid s p" "valid s (prevF s p)" "valid s (nextF s p)"
    using rings_ok_valid[OF ok] ring_closed[OF rk(5)] p unfolding b_def by auto
  have "mrF s p \<in> set (b # ls)" "lrF s p \<in> set (b # ls)"
    using ring_closed[OF rk(6), of p] p rk(7) by auto
  then have v2: "valid s (mrF s p)" "valid s (lrF s p)"
    using rings_ok_valid[OF ok] rk(7) unfolding b_def by auto
  obtain s' where s': "real_free s h = Some s'"
    "mem_total_size s' = mem_total_size s"
    "mem_allocated_size s' = mem_allocated_size s - size_field (hunk s p)"
    "mem_arena_ptr s' = mem_arena_ptr s" "handle_at s' = (handle_at s)(h := nullptr)"
    "live s' = live s - {p}"
    "nextF s' = (nextF s)(prevF s p := nextF s p, p := nullptr)"
    "prevF s' = (prevF s)(nextF s p := prevF s p, p := nullptr)"
    "mrF s' = (mrF s)(lrF s p := mrF s p, p := nullptr)"
    "lrF s' = (lrF s)(mrF s p := lrF s p, p := nullptr)"
    "ownerF s' = (ownerF s)(p := nullptr)"
    "(\<lambda>a. size_field (hunk s' a)) = (\<lambda>a. size_field (hunk s a))(p := 0)"
    using real_free_effect[OF h v v2 ne] by blast
  have ra: "remove1 p as = xs @ ys" using da unfolding as by (simp add: remove1_append)
  have rl: "remove1 p ls = us @ vs" using dl unfolding ls by (simp add: remove1_append)
  have pa: "p \<notin> set (b # xs @ ys)" using da by auto
  have pl: "p \<notin> set (b # us @ vs)" using dl by auto
  have r1: "ring (nextF s') (prevF s') b (xs @ ys)"
    unfolding s'(7,8) nx pv
    using ring_remove[OF rk(5)[unfolded as] da refl refl] pa
    by (simp add: ring_frame1 ring_frame2)
  have r2: "ring (mrF s') (lrF s') b (us @ vs)"
    unfolding s'(9,10) mr lr
    using ring_remove[OF rk(6)[unfolded ls] dl refl refl] pl
    by (simp add: ring_frame1 ring_frame2)
  have "rings_ok s' (remove1 p as) (remove1 p ls)"
    unfolding rings_ok_def ra rl s'(4) b_def[symmetric]
    using rk r1 r2 s'(6) da dl unfolding as ls by auto
  then show ?thesis using s' by blast
qed

lemma size_pointwise:
  "(\<lambda>a. size_field (hunk s' a)) = (\<lambda>a. size_field (hunk s a))(p := w) \<Longrightarrow>
   bytesF s' a = (if a = p then unat w else bytesF s a)"
  by (auto simp: fun_eq_iff)

lemma free_layout:
  assumes lay: "layout_ok s as" and d: "distinct (mem_arena_ptr s # as)" and p: "p \<in> set as"
    and s': "mem_total_size s' = mem_total_size s"
      "mem_allocated_size s' = mem_allocated_size s - size_field (hunk s p)"
      "mem_arena_ptr s' = mem_arena_ptr s"
      "(\<lambda>a. size_field (hunk s' a)) = (\<lambda>a. size_field (hunk s a))(p := 0)"
  shows "layout_ok s' (remove1 p as)"
proof -
  define b where "b = mem_arena_ptr s"
  obtain xs ys where as: "as = xs @ p # ys"
    using p by (auto dest: split_list)
  have da: "distinct (b # xs @ p # ys)" using d unfolding as b_def by simp
  have ra: "remove1 p as = xs @ ys" using da unfolding as by (simp add: remove1_append)
  have sz: "\<And>a. a \<noteq> p \<Longrightarrow> bytesF s' a = bytesF s a"
    using size_pointwise[OF s'(4)] by simp
  have l: "size_field (hunk s b) = sizeof_LRUMemoryHunk"
    "laid_out (bytesF s) b (xs @ p # ys) (b + unat (mem_total_size s))"
    "\<forall>a \<in> set (xs @ p # ys). unat sizeof_LRUMemoryHunk \<le> bytesF s a \<and>
        unat MEMORY_ALIGNMENT dvd bytesF s a"
    "unat (mem_allocated_size s) = sum_list (map (bytesF s) (b # xs @ p # ys))"
    using lay unfolding layout_ok_def as b_def by auto
  have pb: "p \<noteq> b" "p \<notin> set xs" "p \<notin> set ys" using da by auto
  have sz': "bytesF s' a = bytesF s a" if "a \<in> set (b # xs @ ys)" for a
  proof -
    have "a \<noteq> p" using that pb by auto
    then show ?thesis by (rule sz)
  qed
  have 1: "size_field (hunk s' b) = sizeof_LRUMemoryHunk"
    using fun_cong[OF s'(4), of b] pb l(1) by simp
  have "laid_out (bytesF s') b (xs @ ys) (b + unat (mem_total_size s)) =
      laid_out (bytesF s) b (xs @ ys) (b + unat (mem_total_size s))"
    by (rule laid_out_cong) (rule sz')
  then have 2: "laid_out (bytesF s') b (xs @ ys) (b + unat (mem_total_size s'))"
    using laid_out_remove[OF l(2)] s'(1) by simp
  have 3: "\<forall>a \<in> set (xs @ ys). unat sizeof_LRUMemoryHunk \<le> bytesF s' a \<and>
        unat MEMORY_ALIGNMENT dvd bytesF s' a"
    using l(3) sz' by auto
  have le: "unat (size_field (hunk s p)) \<le> unat (mem_allocated_size s)"
    unfolding l(4) by simp
  then have "size_field (hunk s p) \<le> mem_allocated_size s"
    by (simp add: word_le_nat_alt)
  then have "unat (mem_allocated_size s') = unat (mem_allocated_size s) - bytesF s p"
    unfolding s'(2) by (rule unat_sub)
  also have "\<dots> = sum_list (map (bytesF s) (b # xs @ ys))"
    unfolding l(4) by simp
  also have "\<dots> = sum_list (map (bytesF s') (b # xs @ ys))"
    by (rule arg_cong[where f = sum_list], rule map_cong) (use sz' in auto)
  finally have 4: "unat (mem_allocated_size s') = sum_list (map (bytesF s') (b # xs @ ys))" .
  show ?thesis
    unfolding layout_ok_def ra s'(3) b_def[symmetric] using 1 2 3 4 by simp
qed

lemma free_handles:
  assumes hk: "handles_ok s as" and d: "distinct (mem_arena_ptr s # as)" and p: "p \<in> set as"
    and s': "mem_arena_ptr s' = mem_arena_ptr s"
      "handle_at s' = (handle_at s)(ownerF s p := nullptr)"
      "ownerF s' = (ownerF s)(p := nullptr)"
  shows "handles_ok s' (remove1 p as)"
proof -
  have k: "ownerF s (mem_arena_ptr s) = nullptr"
    "\<And>a. a \<in> set as \<Longrightarrow> ownerF s a \<noteq> nullptr \<and> handle_at s (ownerF s a) = a"
    "\<And>h. handle_at s h \<noteq> nullptr \<Longrightarrow> handle_at s h \<in> set as \<and> ownerF s (handle_at s h) = h"
    using hk unfolding handles_ok_def by auto
  have o: "\<And>a. ownerF s' a = (if a = p then nullptr else ownerF s a)"
    using s'(3) by (auto simp: fun_eq_iff)
  have pb: "p \<noteq> mem_arena_ptr s" using d p by auto
  have sr: "set (remove1 p as) = set as - {p}" using d by simp
  have 1: "ownerF s' (mem_arena_ptr s') = nullptr"
    unfolding s'(1) o using k(1) by simp
  have 2: "ownerF s' a \<noteq> nullptr \<and> handle_at s' (ownerF s' a) = a" if "a \<in> set as" "a \<noteq> p" for a
  proof -
    have "ownerF s a \<noteq> ownerF s p" using k(2)[OF that(1)] k(2)[OF p] that(2) by metis
    then show ?thesis using k(2)[OF that(1)] that(2) unfolding o s'(2) by simp
  qed
  have 3: "handle_at s' h \<in> set as - {p} \<and> ownerF s' (handle_at s' h) = h"
    if "handle_at s' h \<noteq> nullptr" for h
  proof -
    have hn: "h \<noteq> ownerF s p" "handle_at s' h = handle_at s h"
      using that unfolding s'(2) by (auto split: if_splits)
    then have "handle_at s h \<noteq> nullptr" using that by simp
    from k(3)[OF this] hn show ?thesis unfolding o by auto
  qed
  show ?thesis unfolding handles_ok_def sr using 1 2 3 by blast
qed

lemma wf_free:
  assumes wf: "well_formed s as ls" and p: "p \<in> set as"
  shows "\<exists>s'. real_free s (ownerF s p) = Some s' \<and>
           well_formed s' (remove1 p as) (remove1 p ls) \<and>
           mem_total_size s' = mem_total_size s \<and> mem_arena_ptr s' = mem_arena_ptr s \<and>
           handle_at s' = (handle_at s)(ownerF s p := nullptr)"
proof -
  have ok: "rings_ok s as ls" "layout_ok s as" "handles_ok s as"
    using wf unfolding well_formed_def by auto
  have d: "distinct (mem_arena_ptr s # as)" using ok(1) unfolding rings_ok_def by simp
  have h: "ownerF s p \<noteq> nullptr" "handle_at s (ownerF s p) = p"
    using ok(3) p unfolding handles_ok_def by auto
  obtain s' where s': "real_free s (ownerF s p) = Some s'"
    "rings_ok s' (remove1 p as) (remove1 p ls)"
    "mem_total_size s' = mem_total_size s"
    "mem_allocated_size s' = mem_allocated_size s - size_field (hunk s p)"
    "mem_arena_ptr s' = mem_arena_ptr s" "handle_at s' = (handle_at s)(ownerF s p := nullptr)"
    "ownerF s' = (ownerF s)(p := nullptr)"
    "(\<lambda>a. size_field (hunk s' a)) = (\<lambda>a. size_field (hunk s a))(p := 0)"
    using free_rings[OF ok(1) p h] by blast
  have "layout_ok s' (remove1 p as)"
    using free_layout[OF ok(2) d p s'(3,4,5,8)] .
  moreover have "handles_ok s' (remove1 p as)"
    using free_handles[OF ok(3) d p s'(5,6,7)] .
  ultimately show ?thesis
    using s' unfolding well_formed_def by blast
qed

lemma ring_push_front:
  assumes r: "ring nx pv b ls" and d: "distinct (b # ls)" and p: "p \<notin> set (b # ls)"
  shows "ring (nx(p := nx b, b := p)) (pv(nx b := p, p := b)) b (p # ls)"
proof -
  have x: "nx b = hd (ls @ [b])" using ring_head(1)[OF r] .
  have "nx b \<in> set (b # ls)" using hd_in[of ls b] x by simp
  then have ne: "nx b \<noteq> p" using p by auto
  have "ring (nx(p := nx b, b := p)) (pv(p := b, nx b := p)) b ([] @ p # ls)"
    by (rule ring_insert[where xs = "[]"]) (use r d p x in simp_all)
  moreover have "pv(p := b, nx b := p) = pv(nx b := p, p := b)"
    using ne by (simp add: fun_upd_twist)
  ultimately show ?thesis by simp
qed

lemma layout_cong:
  assumes "layout_ok s as" "mem_total_size s' = mem_total_size s"
    "mem_allocated_size s' = mem_allocated_size s" "mem_arena_ptr s' = mem_arena_ptr s"
    "(\<lambda>a. size_field (hunk s' a)) = (\<lambda>a. size_field (hunk s a))"
  shows "layout_ok s' as"
proof -
  have "\<And>a. size_field (hunk s' a) = size_field (hunk s a)"
    using assms(5) by (auto simp: fun_eq_iff)
  then show ?thesis using assms(1-4) unfolding layout_ok_def by simp
qed

lemma handles_cong:
  assumes "handles_ok s as" "mem_arena_ptr s' = mem_arena_ptr s" "handle_at s' = handle_at s"
    "ownerF s' = ownerF s"
  shows "handles_ok s' as"
proof -
  have "\<And>a. ownerF s' a = ownerF s a" using assms(4) by (auto simp: fun_eq_iff)
  then show ?thesis using assms(1-3) unfolding handles_ok_def by simp
qed

lemma wf_refresh:
  assumes wf: "well_formed s as ls" and h: "h \<noteq> nullptr" "handle_at s h \<noteq> nullptr"
  shows "\<exists>s'. real_get_buffer s h = Some (data_ptr (handle_at s h), s') \<and>
           well_formed s' as (handle_at s h # remove1 (handle_at s h) ls) \<and>
           mem_total_size s' = mem_total_size s \<and> mem_arena_ptr s' = mem_arena_ptr s \<and>
           mem_allocated_size s' = mem_allocated_size s \<and> handle_at s' = handle_at s \<and>
           nextF s' = nextF s \<and> prevF s' = prevF s \<and> ownerF s' = ownerF s \<and>
           (\<lambda>a. size_field (hunk s' a)) = (\<lambda>a. size_field (hunk s a))"
proof -
  define b where "b = mem_arena_ptr s"
  define p where "p = handle_at s h"
  have ok: "rings_ok s as ls" "layout_ok s as" "handles_ok s as"
    using wf unfolding well_formed_def by auto
  have rk: "b \<noteq> nullptr" "nullptr \<notin> set as" "live s = set (b # as)" "distinct (b # as)"
    "ring (nextF s) (prevF s) b as" "ring (mrF s) (lrF s) b ls" "set ls = set as" "distinct ls"
    using ok(1) unfolding rings_ok_def b_def by auto
  have pin: "p \<in> set as" using ok(3) h(2) unfolding handles_ok_def p_def by auto
  then have "p \<in> set ls" using rk(7) by simp
  then obtain us vs where ls: "ls = us @ p # vs"
    by (auto dest: split_list)
  have dl: "distinct (b # us @ p # vs)" using rk(4,7,8) unfolding ls by auto
  have mr: "mrF s p = hd (vs @ [b])" and lr: "lrF s p = last (b # us)"
    using ring_at[OF rk(6)[unfolded ls]] by simp_all
  have ne: "mrF s p \<noteq> p" unfolding mr using hd_neq[OF dl] .
  have vp: "valid s p" "valid s b"
    using rings_ok_valid[OF ok(1)] pin unfolding b_def by auto
  have "mrF s p \<in> set (b # ls)" "lrF s p \<in> set (b # ls)"
    using ring_closed[OF rk(6), of p] pin rk(7) by auto
  then have v2: "valid s (mrF s p)" "valid s (lrF s p)"
    using rings_ok_valid[OF ok(1)] rk(7) unfolding b_def by auto
  obtain s1 where s1: "unlink_lru s p = Some s1" "lru_frame s s1"
    "mrF s1 = (mrF s)(lrF s p := mrF s p, p := nullptr)"
    "lrF s1 = (lrF s)(mrF s p := lrF s p, p := nullptr)"
    using unlink_lru_effect[OF vp(1) v2 ne] by blast
  have f1: "mem_total_size s1 = mem_total_size s" "mem_allocated_size s1 = mem_allocated_size s"
    "mem_arena_ptr s1 = mem_arena_ptr s" "handle_at s1 = handle_at s" "live s1 = live s"
    "nextF s1 = nextF s" "prevF s1 = prevF s" "ownerF s1 = ownerF s"
    "(\<lambda>a. size_field (hunk s1 a)) = (\<lambda>a. size_field (hunk s a))"
    using s1(2) unfolding lru_frame_def by simp_all
  have rl: "remove1 p ls = us @ vs" using dl unfolding ls by (simp add: remove1_append)
  have pl: "p \<notin> set (b # us @ vs)" using dl by auto
  have r1: "ring (mrF s1) (lrF s1) b (us @ vs)"
    unfolding s1(3,4) mr lr
    using ring_remove[OF rk(6)[unfolded ls] dl refl refl] pl
    by (simp add: ring_frame1 ring_frame2)
  have v1: "valid s1 p" "valid s1 (mem_arena_ptr s1)"
    using vp f1(3,5) unfolding valid_def b_def by simp_all
  have "mrF s1 b \<in> set (b # us @ vs)"
    using ring_closed(1)[OF r1, of b] by simp
  then have "mrF s1 b \<in> live s \<and> mrF s1 b \<noteq> nullptr"
    using rk(1,2,3,7) unfolding ls by (cases "mrF s1 b = nullptr") auto
  then have v1': "valid s1 (mrF s1 (mem_arena_ptr s1))"
    unfolding valid_def f1(3,5) b_def by simp
  have z: "mrF s1 p = nullptr" "lrF s1 p = nullptr"
    using fun_cong[OF s1(3), of p] fun_cong[OF s1(4), of p] by simp_all
  obtain s2 where s2: "link_lru s1 p = Some s2" "lru_frame s1 s2"
    "mrF s2 = (mrF s1)(p := mrF s1 (mem_arena_ptr s1), mem_arena_ptr s1 := p)"
    "lrF s2 = (lrF s1)(mrF s1 (mem_arena_ptr s1) := p, p := mem_arena_ptr s1)"
    using link_lru_effect[OF v1 v1' z] by blast
  have f2: "mem_total_size s2 = mem_total_size s" "mem_allocated_size s2 = mem_allocated_size s"
    "mem_arena_ptr s2 = mem_arena_ptr s" "handle_at s2 = handle_at s" "live s2 = live s"
    "nextF s2 = nextF s" "prevF s2 = prevF s" "ownerF s2 = ownerF s"
    "(\<lambda>a. size_field (hunk s2 a)) = (\<lambda>a. size_field (hunk s a))"
    using s2(2) f1 unfolding lru_frame_def by simp_all
  have d1: "distinct (b # us @ vs)" using dl by auto
  have r2: "ring (mrF s2) (lrF s2) b (p # us @ vs)"
    unfolding s2(3,4) f1(3) b_def[symmetric]
    by (rule ring_push_front[OF r1 d1 pl])
  have "rings_ok s2 as (p # remove1 p ls)"
    unfolding rings_ok_def rl f2 b_def[symmetric]
    using rk r2 dl unfolding ls by auto
  moreover have "layout_ok s2 as"
    using layout_cong[OF ok(2) f2(1,2,3,9)] .
  moreover have "handles_ok s2 as"
    using handles_cong[OF ok(3) f2(3,4,8)] .
  moreover have "real_get_buffer s h = Some (data_ptr p, s2)"
    using h s1(1) s2(1) unfolding real_get_buffer_def get_hunk_ptr_def p_def by simp
  ultimately show ?thesis
    unfolding well_formed_def p_def[symmetric] using f2 by blast
qed

lemma get_buffer_unbound:
  "h \<noteq> nullptr \<Longrightarrow> handle_at s h = nullptr \<Longrightarrow> real_get_buffer s h = Some (nullptr, s)"
  unfolding real_get_buffer_def get_hunk_ptr_def by simp

lemma place_at_Cons:
  "place_at s w c (y # ys) =
     (if c + bytesF s c + unat w \<le> y then place_hunk s w (c + bytesF s c) y
      else place_at s w y ys)"
  unfolding place_at_def by (auto split: option.splits)

lemma place_at_Nil:
  "place_at s w c [] =
     (if c + bytesF s c + unat w \<le> pool_end s
      then place_hunk s w (c + bytesF s c) (mem_arena_ptr s)
      else Some (nullptr, s))"
  unfolding place_at_def by (auto split: option.splits)

lemma try_alloc_tail_eq:
  assumes ok: "rings_ok s as ls"
  shows "try_alloc_tail s w = place_at s w (last (mem_arena_ptr s # as)) []"
proof -
  define b where "b = mem_arena_ptr s"
  have rk: "ring (nextF s) (prevF s) b as"
    using ok unfolding rings_ok_def b_def by auto
  have pv: "prevF s b = last (b # as)" using ring_head(2)[OF rk] .
  have v: "valid s b" "valid s (last (b # as))"
    using rings_ok_valid[OF ok] last_in[of b as] unfolding b_def by auto
  show ?thesis
    unfolding try_alloc_tail_def place_at_Nil get_head_hunk_def b_def[symmetric] pool_end_def
    using v pv by (simp add: deref_valid Let_def del: last.simps)
qed

lemma try_alloc_walk_eq:
  assumes ok: "rings_ok s as ls"
  shows "as = xs @ y # ys \<Longrightarrow> try_alloc_walk s w (last (mem_arena_ptr s # xs)) y =
           place_at s w (last (mem_arena_ptr s # xs)) (y # ys)"
proof (induction ys arbitrary: xs y)
  case Nil
  define b where "b = mem_arena_ptr s"
  have rk: "ring (nextF s) (prevF s) b (xs @ [y])" "distinct (b # xs @ [y])"
    using ok Nil unfolding rings_ok_def b_def by auto
  have nx: "nextF s y = b" using ring_at(1)[OF rk(1)] by simp
  have v: "valid s y" "valid s (last (b # xs))"
    using rings_ok_valid[OF ok] last_in[of b xs] Nil unfolding b_def by auto
  have t: "try_alloc_tail s w = place_at s w y []"
    using try_alloc_tail_eq[OF ok, of w] Nil by simp
  show ?case
    unfolding b_def[symmetric]
    by (subst try_alloc_walk.simps)
      (use v nx t in \<open>simp add: deref_valid Let_def place_at_Cons get_head_hunk_def
         b_def[symmetric] del: last.simps\<close>)
next
  case (Cons z zs)
  define b where "b = mem_arena_ptr s"
  have rk: "ring (nextF s) (prevF s) b (xs @ y # z # zs)" "distinct (b # xs @ y # z # zs)"
    using ok Cons.prems unfolding rings_ok_def b_def by auto
  have nx: "nextF s y = z" using ring_at(1)[OF rk(1)] by simp
  have zb: "z \<noteq> b" using rk(2) by auto
  have v: "valid s y" "valid s (last (b # xs))"
    using rings_ok_valid[OF ok] last_in[of b xs] Cons.prems unfolding b_def by auto
  have "as = (xs @ [y]) @ z # zs" using Cons.prems by simp
  from Cons.IH[OF this]
  have ih: "try_alloc_walk s w y z = place_at s w y (z # zs)"
    unfolding b_def[symmetric] by simp
  show ?case
    unfolding b_def[symmetric]
    by (subst try_alloc_walk.simps, subst place_at_Cons)
      (use v nx zb ih in \<open>simp add: deref_valid Let_def get_head_hunk_def
         b_def[symmetric] del: last.simps\<close>)
qed

lemma try_alloc_eq:
  assumes ok: "rings_ok s as ls" and pos: "0 < bytesF s (mem_arena_ptr s)"
  shows "try_alloc s w = place_at s w (mem_arena_ptr s) as"
proof -
  define b where "b = mem_arena_ptr s"
  have rk: "ring (nextF s) (prevF s) b as"
    using ok unfolding rings_ok_def b_def by auto
  have v: "valid s b" using rings_ok_valid[OF ok] unfolding b_def by simp
  have nx: "nextF s b = hd (as @ [b])" using ring_head(1)[OF rk] .
  show ?thesis
  proof (cases as)
    case Nil
    have t: "try_alloc_tail s w = place_at s w b []"
      using try_alloc_tail_eq[OF ok, of w] Nil unfolding b_def by simp
    have "try_alloc_walk s w b b = place_at s w b []"
      by (subst try_alloc_walk.simps)
        (use v nx t Nil pos in \<open>simp add: deref_valid Let_def get_head_hunk_def b_def[symmetric]\<close>)
    then show ?thesis
      unfolding try_alloc_def get_head_hunk_def b_def[symmetric]
      using v nx Nil by (simp add: deref_valid Let_def)
  next
    case (Cons y ys)
    have "try_alloc_walk s w (last (mem_arena_ptr s # [])) y =
        place_at s w (last (mem_arena_ptr s # [])) (y # ys)"
      by (rule try_alloc_walk_eq[OF ok]) (use Cons in simp)
    then show ?thesis
      unfolding try_alloc_def get_head_hunk_def b_def[symmetric]
      using v nx Cons by (simp add: deref_valid Let_def)
  qed
qed

lemma first_fit_Some:
  "first_fit sz r c rest e = Some i \<Longrightarrow>
     i \<le> length rest \<and>
     last (c # take i rest) + sz (last (c # take i rest)) + r \<le> hd (drop i rest @ [e])"
proof (induction rest arbitrary: c i)
  case Nil
  then show ?case by (auto split: if_splits)
next
  case (Cons x xs)
  show ?case
  proof (cases "c + sz c + r \<le> x")
    case True
    then show ?thesis using Cons.prems by simp
  next
    case False
    then obtain j where j: "first_fit sz r x xs e = Some j" "i = Suc j"
      using Cons.prems by auto
    from Cons.IH[OF j(1)] show ?thesis unfolding j(2) by simp
  qed
qed

lemma first_fit_first:
  "first_fit sz r c rest e = Some i \<Longrightarrow> j < i \<Longrightarrow>
     \<not> last (c # take j rest) + sz (last (c # take j rest)) + r \<le> hd (drop j rest @ [e])"
proof (induction rest arbitrary: c i j)
  case Nil
  then show ?case by (auto split: if_splits)
next
  case (Cons x xs)
  show ?case
  proof (cases "c + sz c + r \<le> x")
    case True
    then show ?thesis using Cons.prems by simp
  next
    case False
    then obtain k where k: "first_fit sz r x xs e = Some k" "i = Suc k"
      using Cons.prems by auto
    show ?thesis
    proof (cases j)
      case 0
      then show ?thesis using False by simp
    next
      case (Suc j')
      then have "j' < k" using Cons.prems(2) k(2) by simp
      from Cons.IH[OF k(1) this] show ?thesis unfolding Suc by simp
    qed
  qed
qed

lemma first_fit_None:
  "first_fit sz r c rest e = None \<Longrightarrow> j \<le> length rest \<Longrightarrow>
     \<not> last (c # take j rest) + sz (last (c # take j rest)) + r \<le> hd (drop j rest @ [e])"
proof (induction rest arbitrary: c j)
  case Nil
  then show ?case by (auto split: if_splits)
next
  case (Cons x xs)
  have n: "\<not> c + sz c + r \<le> x" "first_fit sz r x xs e = None"
    using Cons.prems(1) by (auto split: if_splits)
  show ?case
  proof (cases j)
    case 0
    then show ?thesis using n by simp
  next
    case (Suc j')
    then have "j' \<le> length xs" using Cons.prems(2) by simp
    from Cons.IH[OF n(2) this] show ?thesis unfolding Suc by simp
  qed
qed

lemma laid_out_sum: "laid_out sz c xs e \<Longrightarrow> c + sum_list (map sz (c # xs)) \<le> e"
proof (induction xs arbitrary: c)
  case Nil
  then show ?case by simp
next
  case (Cons x xs)
  from Cons.IH[of x] Cons.prems show ?case by simp
qed

lemma laid_out_append:
  "laid_out sz c (xs @ y # ys) e \<longleftrightarrow> laid_out sz c xs y \<and> laid_out sz y ys e"
  by (induction xs arbitrary: c) auto

lemma laid_out_tighten:
  "laid_out sz c xs e \<Longrightarrow> laid_out sz c xs (last (c # xs) + sz (last (c # xs)))"
  by (induction xs arbitrary: c) auto

lemma laid_out_last: "laid_out sz c xs e \<Longrightarrow> last (c # xs) + sz (last (c # xs)) \<le> e"
  by (induction xs arbitrary: c) auto

lemma laid_out_below:
  "laid_out sz c xs e \<Longrightarrow> (\<And>a. a \<in> set (c # xs) \<Longrightarrow> 0 < sz a) \<Longrightarrow>
     a \<in> set (c # xs) \<Longrightarrow> a < last (c # xs) + sz (last (c # xs))"
proof (induction xs arbitrary: c a)
  case Nil
  then show ?case by simp
next
  case (Cons x xs)
  have ih: "b \<in> set (x # xs) \<Longrightarrow> b < last (x # xs) + sz (last (x # xs))" for b
    using Cons.IH[of x b] Cons.prems(1,2) by simp
  have x: "x < last (x # xs) + sz (last (x # xs))" using ih[of x] by simp
  have c: "c < x" using Cons.prems(1) Cons.prems(2)[of c] by simp
  show ?case
  proof (cases "a = c")
    case True
    then show ?thesis using x c by simp
  next
    case False
    then have "a \<in> set (x # xs)" using Cons.prems(3) by simp
    from ih[OF this] show ?thesis by simp
  qed
qed

lemma laid_out_above:
  "laid_out sz c xs e \<Longrightarrow> a \<in> set xs \<Longrightarrow> c + sz c \<le> a"
proof (induction xs arbitrary: c)
  case Nil
  then show ?case by simp
next
  case (Cons x xs)
  have "x + sz x \<le> a" if "a \<in> set xs"
    using Cons.IH[of x] Cons.prems(1) that by simp
  then show ?case using Cons.prems by auto
qed

lemma laid_out_insert:
  assumes l: "laid_out sz c (xs @ ys) e" and p: "p = last (c # xs) + sz (last (c # xs))"
    and fit: "p + n \<le> hd (ys @ [e])" and np: "p \<notin> set (c # xs @ ys)"
  shows "laid_out (sz(p := n)) c (xs @ p # ys) e"
proof -
  have eq: "laid_out (sz(p := n)) c' zs e' = laid_out sz c' zs e'"
    if "set (c' # zs) \<subseteq> set (c # xs @ ys)" for c' zs e'
    by (rule laid_out_cong) (use that np in auto)
  have 1: "laid_out sz c xs p"
  proof (cases ys)
    case Nil
    then show ?thesis using laid_out_tighten[of sz c xs e] l p by simp
  next
    case (Cons y ys')
    then have "laid_out sz c xs y" using l by (simp add: laid_out_append)
    from laid_out_tighten[OF this] show ?thesis using p by simp
  qed
  have 2: "laid_out (sz(p := n)) p ys e"
  proof (cases ys)
    case Nil
    then show ?thesis using fit by simp
  next
    case (Cons y ys')
    then have "laid_out sz y ys' e" using l by (simp add: laid_out_append)
    moreover have "laid_out (sz(p := n)) y ys' e = laid_out sz y ys' e"
      by (rule eq) (use Cons in auto)
    ultimately show ?thesis using fit Cons by simp
  qed
  have "laid_out (sz(p := n)) c xs p = laid_out sz c xs p"
    by (rule eq) auto
  then show ?thesis using 1 2 by (simp add: laid_out_append)
qed

lemma place_fresh:
  assumes l: "laid_out sz c (xs @ ys) e" and pos: "\<And>a. a \<in> set (c # xs @ ys) \<Longrightarrow> 0 < sz a"
    and p: "p = last (c # xs) + sz (last (c # xs))"
    and fit: "p + n \<le> hd (ys @ [e])" and n: "0 < n"
  shows "p \<notin> set (c # xs @ ys)"
proof -
  have "\<exists>e'. laid_out sz c xs e'"
  proof (cases ys)
    case Nil
    then show ?thesis using l by auto
  next
    case (Cons y ys')
    then show ?thesis using l by (auto simp: laid_out_append)
  qed
  then obtain e' where l': "laid_out sz c xs e'" ..
  have px: "0 < sz a" if "a \<in> set (c # xs)" for a
    using pos[of a] that by auto
  have 1: "a < p" if "a \<in> set (c # xs)" for a
    unfolding p using l' px that by (rule laid_out_below)
  have 2: "p < a" if "a \<in> set ys" for a
  proof (cases ys)
    case Nil
    then show ?thesis using that by simp
  next
    case (Cons y ys')
    then have "laid_out sz y ys' e" using l by (simp add: laid_out_append)
    from laid_out_above[OF this, of a] have "y \<le> a" using that Cons by auto
    then show ?thesis using fit n Cons by simp
  qed
  show ?thesis using 1 2 by fastforce
qed

lemma layout_pos:
  assumes "layout_ok s as" "a \<in> set (mem_arena_ptr s # as)"
  shows "0 < bytesF s a"
proof -
  have "unat sizeof_LRUMemoryHunk = 48" by (simp add: sizeof_LRUMemoryHunk_def)
  then show ?thesis using assms unfolding layout_ok_def by auto
qed

lemma place_wf:
  assumes ok: "rings_ok s as ls" and lay: "layout_ok s as" and as: "as = xs @ ys"
    and p: "p = last (mem_arena_ptr s # xs) + bytesF s (last (mem_arena_ptr s # xs))"
    and fit: "p + unat w \<le> hd (ys @ [pool_end s])"
    and w: "unat sizeof_LRUMemoryHunk \<le> unat w" "unat MEMORY_ALIGNMENT dvd unat w"
  shows "\<exists>s'. place_hunk s w p (hd (ys @ [mem_arena_ptr s])) = Some (p, s') \<and>
           rings_ok s' (xs @ p # ys) (p # ls) \<and> layout_ok s' (xs @ p # ys) \<and>
           mem_total_size s' = mem_total_size s \<and> mem_arena_ptr s' = mem_arena_ptr s \<and>
           handle_at s' = handle_at s \<and> ownerF s' = (ownerF s)(p := nullptr) \<and>
           bytesF s' p = unat w"
proof -
  define b where "b = mem_arena_ptr s"
  define c where "c = last (b # xs)"
  define x where "x = hd (ys @ [b])"
  define e where "e = pool_end s"
  have rk: "b \<noteq> nullptr" "nullptr \<notin> set as" "live s = set (b # as)" "distinct (b # as)"
    "ring (nextF s) (prevF s) b (xs @ ys)" "ring (mrF s) (lrF s) b ls" "set ls = set as"
    "distinct ls"
    using ok unfolding rings_ok_def b_def as by auto
  have l: "size_field (hunk s b) = sizeof_LRUMemoryHunk"
    "laid_out (bytesF s) b (xs @ ys) e"
    "\<forall>a \<in> set as. unat sizeof_LRUMemoryHunk \<le> bytesF s a \<and>
        unat MEMORY_ALIGNMENT dvd bytesF s a"
    "unat (mem_allocated_size s) = sum_list (map (bytesF s) (b # as))"
    using lay unfolding layout_ok_def b_def as e_def pool_end_def by auto
  have pos: "0 < bytesF s a" if "a \<in> set (b # xs @ ys)" for a
    using layout_pos[OF lay, of a] that unfolding b_def as by simp
  have wpos: "0 < unat w" using w(1) by (simp add: sizeof_LRUMemoryHunk_def)
  have pc: "p = c + bytesF s c" using p unfolding c_def b_def .
  have fit': "p + unat w \<le> hd (ys @ [e])" using fit unfolding e_def .
  have fresh: "p \<notin> set (b # xs @ ys)"
    using l(2) pos p fit' wpos unfolding b_def[symmetric] by (rule place_fresh)
  have cin: "c \<in> set (b # xs)" unfolding c_def by (rule last_in)
  have xin: "x \<in> set (b # ys)" unfolding x_def by (rule hd_in)
  have pnz: "p \<noteq> nullptr" using pos[of c] cin pc by auto
  have pl: "p \<notin> live s" using fresh rk(3) unfolding as by simp
  have pvx: "prevF s x = c" using ring_succ(2)[OF rk(5)] unfolding x_def c_def .
  have vx: "valid s x" "valid s (prevF s x)" "valid s (mem_arena_ptr s)"
    using rings_ok_valid[OF ok] xin cin unfolding pvx b_def as by auto
  have "mrF s b \<in> set (b # ls)" using ring_closed(1)[OF rk(6), of b] by simp
  then have vm: "valid s (mrF s (mem_arena_ptr s))"
    using rings_ok_valid[OF ok] rk(7) unfolding b_def by auto
  obtain s' where s': "place_hunk s w p x = Some (p, s')"
    "mem_total_size s' = mem_total_size s"
    "mem_allocated_size s' = mem_allocated_size s + w"
    "mem_arena_ptr s' = mem_arena_ptr s" "handle_at s' = handle_at s"
    "live s' = insert p (live s)"
    "nextF s' = (nextF s)(p := x, prevF s x := p)"
    "prevF s' = (prevF s)(p := prevF s x, x := p)"
    "mrF s' = (mrF s)(p := mrF s (mem_arena_ptr s), mem_arena_ptr s := p)"
    "lrF s' = (lrF s)(mrF s (mem_arena_ptr s) := p, p := mem_arena_ptr s)"
    "ownerF s' = (ownerF s)(p := nullptr)"
    "(\<lambda>a. size_field (hunk s' a)) = (\<lambda>a. size_field (hunk s a))(p := w)"
    using place_hunk_effect[OF pnz pl vx vm, of w] by blast
  have r1: "ring (nextF s') (prevF s') b (xs @ p # ys)"
    unfolding s'(7,8) pvx
    using rk(5) rk(4)[unfolded as] fresh c_def x_def by (rule ring_insert)
  have dl: "distinct (b # ls)" "p \<notin> set (b # ls)"
    using rk(4,7,8) fresh unfolding as by auto
  have r2: "ring (mrF s') (lrF s') b (p # ls)"
    unfolding s'(9,10) b_def[symmetric]
    using rk(6) dl by (rule ring_push_front)
  have rings: "rings_ok s' (xs @ p # ys) (p # ls)"
    unfolding rings_ok_def s'(4,6) b_def[symmetric]
    using rk r1 r2 fresh pnz unfolding as by auto
  have bz: "bytesF s' a = ((bytesF s)(p := unat w)) a" for a
    using size_pointwise[OF s'(12), of a] by simp
  have lo: "laid_out ((bytesF s)(p := unat w)) b (xs @ p # ys) e"
    using l(2) p[unfolded b_def[symmetric]] fit' fresh by (rule laid_out_insert)
  have "laid_out (bytesF s') b (xs @ p # ys) e = laid_out ((bytesF s)(p := unat w)) b (xs @ p # ys) e"
    by (rule laid_out_cong) (rule bz)
  then have l2: "laid_out (bytesF s') b (xs @ p # ys) e" using lo by simp
  have pb: "p \<noteq> b" using fresh by auto
  have l1: "size_field (hunk s' b) = sizeof_LRUMemoryHunk"
    using fun_cong[OF s'(12), of b] pb l(1) by simp
  have l3: "\<forall>a \<in> set (xs @ p # ys). unat sizeof_LRUMemoryHunk \<le> bytesF s' a \<and>
        unat MEMORY_ALIGNMENT dvd bytesF s' a"
    using l(3) w unfolding as bz by auto
  have sm: "sum_list (map (bytesF s') (b # xs @ p # ys)) =
      unat w + sum_list (map (bytesF s) (b # xs @ ys))"
  proof -
    have nb: "bytesF s' a = bytesF s a" if "a \<in> set (b # xs @ ys)" for a
      using bz[of a] fresh that by auto
    have "sum_list (map (bytesF s') xs) = sum_list (map (bytesF s) xs)"
      by (rule arg_cong[where f = sum_list], rule map_cong) (use nb in auto)
    moreover have "sum_list (map (bytesF s') ys) = sum_list (map (bytesF s) ys)"
      by (rule arg_cong[where f = sum_list], rule map_cong) (use nb in auto)
    ultimately show ?thesis using bz[of p] nb[of b] by simp
  qed
  have A: "sum_list (map (bytesF s) (b # xs @ ys)) = unat (mem_allocated_size s)"
    using l(4) unfolding as by simp
  have "b + sum_list (map (bytesF s') (b # xs @ p # ys)) \<le> e"
    using laid_out_sum[OF l2] .
  then have "b + (unat w + unat (mem_allocated_size s)) \<le> e"
    by (simp only: sm A)
  then have "unat (mem_allocated_size s) + unat w \<le> unat (mem_total_size s)"
    unfolding e_def pool_end_def b_def by simp
  then have "unat (mem_allocated_size s) + unat w < 2 ^ LENGTH(64)"
    using unsigned_less[of "mem_total_size s", where 'a = nat] by (simp del: unsigned_less)
  then have "unat (mem_allocated_size s + w) = unat (mem_allocated_size s) + unat w"
    by (simp only: unat_add_lem)
  then have l4: "unat (mem_allocated_size s') = sum_list (map (bytesF s') (b # xs @ p # ys))"
    by (simp only: s'(3) sm A add.commute)
  have "layout_ok s' (xs @ p # ys)"
    unfolding layout_ok_def s'(2,4) b_def[symmetric]
    using l1 l2 l3 l4 unfolding e_def pool_end_def b_def by simp
  moreover have "bytesF s' p = unat w" using bz[of p] by simp
  ultimately show ?thesis
    using s' rings unfolding x_def b_def by blast
qed

lemma place_hunk_result: "place_hunk s w p nxt = Some (r, s') \<Longrightarrow> r = p"
  unfolding place_hunk_def by (auto simp: Let_def split: Option.bind_splits)

lemma bind_handle_effect:
  assumes "valid s p" "h \<noteq> nullptr"
  shows "\<exists>s'. (assign s p (handler_ptr_update (\<lambda>_. h)) \<bind> (\<lambda>s. set_hunk_ptr s h p \<bind>
              (\<lambda>s. Some (data_ptr p, s)))) = Some (data_ptr p, s') \<and>
           mem_total_size s' = mem_total_size s \<and>
           mem_allocated_size s' = mem_allocated_size s \<and>
           mem_arena_ptr s' = mem_arena_ptr s \<and> handle_at s' = (handle_at s)(h := p) \<and>
           live s' = live s \<and> nextF s' = nextF s \<and> prevF s' = prevF s \<and>
           mrF s' = mrF s \<and> lrF s' = lrF s \<and> ownerF s' = (ownerF s)(p := h) \<and>
           (\<lambda>a. size_field (hunk s' a)) = (\<lambda>a. size_field (hunk s a))"
proof -
  have "p \<in> live s" using assms(1) by (simp add: valid_def)
  then show ?thesis
    using assms
    by (simp add: assign_valid set_hunk_ptr_def modify_field modify_fields other_update
        live_modify' insert_absorb fun_eq_iff)
qed

lemma rings_cong:
  assumes "rings_ok s as ls" "mem_arena_ptr s' = mem_arena_ptr s" "live s' = live s"
    "nextF s' = nextF s" "prevF s' = prevF s" "mrF s' = mrF s" "lrF s' = lrF s"
  shows "rings_ok s' as ls"
  using assms(1) unfolding rings_ok_def assms(2-) .

lemma alloc_place:
  assumes ok: "rings_ok s as ls" and lay: "layout_ok s as" and h: "h \<noteq> nullptr"
    and ff: "first_fit (bytesF s) (unat w) (mem_arena_ptr s) as (pool_end s) = Some i"
    and w: "unat sizeof_LRUMemoryHunk \<le> unat w" "unat MEMORY_ALIGNMENT dvd unat w"
    and p: "p = last (mem_arena_ptr s # take i as) + bytesF s (last (mem_arena_ptr s # take i as))"
  shows "\<exists>s'. real_alloc_loop s h w = Some (data_ptr p, s') \<and>
           rings_ok s' (take i as @ p # drop i as) (p # ls) \<and>
           layout_ok s' (take i as @ p # drop i as) \<and>
           mem_total_size s' = mem_total_size s \<and> mem_arena_ptr s' = mem_arena_ptr s \<and>
           handle_at s' = (handle_at s)(h := p) \<and> ownerF s' = (ownerF s)(p := h) \<and>
           p \<noteq> nullptr \<and> p \<notin> set (mem_arena_ptr s # as) \<and>
           (\<exists>u. try_alloc s w = Some (p, u))"
proof -
  define xs where "xs = take i as"
  define ys where "ys = drop i as"
  have as: "as = xs @ ys" unfolding xs_def ys_def by simp
  have fit: "p + unat w \<le> hd (ys @ [pool_end s])"
    using first_fit_Some[OF ff] unfolding p xs_def ys_def by simp
  obtain s1 where s1: "place_hunk s w p (hd (ys @ [mem_arena_ptr s])) = Some (p, s1)"
    "rings_ok s1 (xs @ p # ys) (p # ls)" "layout_ok s1 (xs @ p # ys)"
    "mem_total_size s1 = mem_total_size s" "mem_arena_ptr s1 = mem_arena_ptr s"
    "handle_at s1 = handle_at s" "ownerF s1 = (ownerF s)(p := nullptr)"
    using place_wf[OF ok lay as p[folded xs_def] fit w] by blast
  have pos: "0 < bytesF s (mem_arena_ptr s)" using layout_pos[OF lay] by simp
  have ta: "try_alloc s w = Some (p, s1)"
    unfolding try_alloc_eq[OF ok pos] place_at_def ff
    using s1(1) p unfolding xs_def ys_def by simp
  have pin: "p \<in> set (mem_arena_ptr s1 # xs @ p # ys)" by simp
  have vp: "valid s1 p" using rings_ok_valid[OF s1(2) pin] .
  then have pnz: "p \<noteq> nullptr" by (simp add: valid_def)
  have "distinct (mem_arena_ptr s1 # xs @ p # ys)" using s1(2) unfolding rings_ok_def by simp
  then have fresh: "p \<notin> set (mem_arena_ptr s # as)" unfolding s1(5) as by auto
  obtain s2 where s2: "(assign s1 p (handler_ptr_update (\<lambda>_. h)) \<bind> (\<lambda>s. set_hunk_ptr s h p \<bind>
              (\<lambda>s. Some (data_ptr p, s)))) = Some (data_ptr p, s2)"
    "mem_total_size s2 = mem_total_size s1"
    "mem_allocated_size s2 = mem_allocated_size s1"
    "mem_arena_ptr s2 = mem_arena_ptr s1" "handle_at s2 = (handle_at s1)(h := p)"
    "live s2 = live s1" "nextF s2 = nextF s1" "prevF s2 = prevF s1"
    "mrF s2 = mrF s1" "lrF s2 = lrF s1" "ownerF s2 = (ownerF s1)(p := h)"
    "(\<lambda>a. size_field (hunk s2 a)) = (\<lambda>a. size_field (hunk s1 a))"
    using bind_handle_effect[OF vp h] by blast
  have r: "real_alloc_loop s h w = Some (data_ptr p, s2)"
    by (subst real_alloc_loop.simps) (use ta pnz s2(1) in \<open>simp add: Let_def\<close>)
  have "rings_ok s2 (xs @ p # ys) (p # ls)"
    using rings_cong[OF s1(2) s2(4,6,7,8,9,10)] .
  moreover have "layout_ok s2 (xs @ p # ys)"
    using layout_cong[OF s1(3) s2(2,3,4,12)] .
  moreover have "ownerF s2 = (ownerF s)(p := h)"
    unfolding s2(11) s1(7) by simp
  ultimately show ?thesis
    using r s1(4,5,6) s2(2,4,5) pnz fresh ta unfolding xs_def ys_def by auto
qed

lemma bind_handles:
  assumes hk: "handles_ok s as" and h: "h \<noteq> nullptr" "handle_at s h = nullptr"
    and p: "p \<noteq> nullptr" "p \<notin> set (mem_arena_ptr s # as)" and z: "nullptr \<notin> set as"
    and s': "mem_arena_ptr s' = mem_arena_ptr s" "handle_at s' = (handle_at s)(h := p)"
      "ownerF s' = (ownerF s)(p := h)" and as': "set as' = insert p (set as)"
  shows "handles_ok s' as'"
proof -
  have k: "ownerF s (mem_arena_ptr s) = nullptr"
    "\<And>a. a \<in> set as \<Longrightarrow> ownerF s a \<noteq> nullptr \<and> handle_at s (ownerF s a) = a"
    "\<And>x. handle_at s x \<noteq> nullptr \<Longrightarrow> handle_at s x \<in> set as \<and> ownerF s (handle_at s x) = x"
    using hk unfolding handles_ok_def by auto
  have o: "\<And>a. ownerF s' a = (if a = p then h else ownerF s a)"
    using s'(3) by (auto simp: fun_eq_iff)
  have 1: "ownerF s' (mem_arena_ptr s') = nullptr"
    unfolding s'(1) o using k(1) p(2) by simp
  have 2: "ownerF s' a \<noteq> nullptr \<and> handle_at s' (ownerF s' a) = a" if "a \<in> insert p (set as)" for a
  proof (cases "a = p")
    case True
    then show ?thesis unfolding o s'(2) using h(1) by simp
  next
    case False
    then have a: "a \<in> set as" using that by simp
    then have "a \<noteq> nullptr" using z by (cases "a = nullptr") simp_all
    then have "ownerF s a \<noteq> h" using k(2)[OF a] h(2) by (cases "ownerF s a = h") simp_all
    then show ?thesis using k(2)[OF a] False unfolding o s'(2) by simp
  qed
  have 3: "handle_at s' x \<in> insert p (set as) \<and> ownerF s' (handle_at s' x) = x"
    if "handle_at s' x \<noteq> nullptr" for x
  proof (cases "x = h")
    case True
    then show ?thesis unfolding o s'(2) by simp
  next
    case False
    then have e: "handle_at s' x = handle_at s x" unfolding s'(2) by simp
    then have "handle_at s x \<noteq> nullptr" using that by simp
    from k(3)[OF this] have "handle_at s x \<in> set as" "ownerF s (handle_at s x) = x" by auto
    moreover from this have "handle_at s x \<noteq> p" using p(2) by auto
    ultimately show ?thesis unfolding o e by simp
  qed
  show ?thesis unfolding handles_ok_def as' using 1 2 3 by blast
qed

lemma try_alloc_none:
  assumes "rings_ok s as ls" "layout_ok s as"
    and "first_fit (bytesF s) (unat w) (mem_arena_ptr s) as (pool_end s) = None"
  shows "try_alloc s w = Some (nullptr, s)"
  using try_alloc_eq[OF assms(1) layout_pos[OF assms(2)], of w] assms(3)
  unfolding place_at_def by simp

lemma wf_lru_tail:
  assumes wf: "well_formed s as ls" and ne: "ls \<noteq> []"
  shows "lrF s (mem_arena_ptr s) = last ls" "last ls \<in> set as" "last ls \<noteq> mem_arena_ptr s"
    "valid s (mem_arena_ptr s)" "valid s (last ls)" "remove1 (last ls) ls = butlast ls"
proof -
  have ok: "rings_ok s as ls" using wf unfolding well_formed_def by simp
  have rk: "ring (mrF s) (lrF s) (mem_arena_ptr s) ls" "set ls = set as"
    "distinct (mem_arena_ptr s # as)" "distinct ls"
    using ok unfolding rings_ok_def by auto
  show 1: "lrF s (mem_arena_ptr s) = last ls" using ring_head(2)[OF rk(1)] ne by simp
  show 2: "last ls \<in> set as" using ne rk(2) last_in_set by blast
  then show "last ls \<noteq> mem_arena_ptr s" using rk(3) by auto
  show "valid s (mem_arena_ptr s)" "valid s (last ls)"
    using rings_ok_valid[OF ok] 2 by auto
  have "ls = butlast ls @ [last ls]" using ne by simp
  then show "remove1 (last ls) ls = butlast ls"
    using rk(4) by (metis distinct_append remove1_append remove1.simps(2) append_Nil2
        not_distinct_conv_prefix)
qed

lemma alloc_evict:
  assumes wf: "well_formed s as ls" and ne: "ls \<noteq> []"
    and ff: "first_fit (bytesF s) (unat w) (mem_arena_ptr s) as (pool_end s) = None"
  shows "\<exists>s'. evict_lru s = Some s' \<and> real_free s (ownerF s (last ls)) = Some s' \<and>
           well_formed s' (remove1 (last ls) as) (butlast ls) \<and>
           real_alloc_loop s h w = real_alloc_loop s' h w \<and>
           mem_total_size s' = mem_total_size s \<and> mem_arena_ptr s' = mem_arena_ptr s \<and>
           handle_at s' = (handle_at s)(ownerF s (last ls) := nullptr)"
proof -
  have ok: "rings_ok s as ls" "layout_ok s as" using wf unfolding well_formed_def by auto
  note t = wf_lru_tail[OF wf ne]
  obtain s' where s': "real_free s (ownerF s (last ls)) = Some s'"
    "well_formed s' (remove1 (last ls) as) (remove1 (last ls) ls)"
    "mem_total_size s' = mem_total_size s" "mem_arena_ptr s' = mem_arena_ptr s"
    "handle_at s' = (handle_at s)(ownerF s (last ls) := nullptr)"
    using wf_free[OF wf t(2)] by blast
  have e: "evict_lru s = Some s'"
    unfolding evict_lru_def get_head_hunk_def using t(1,4,5) s'(1) by (simp add: deref_valid)
  have "real_alloc_loop s h w = real_alloc_loop s' h w"
    by (subst real_alloc_loop.simps)
      (use try_alloc_none[OF ok ff] t(1,3,4,5) s'(1) in
        \<open>simp add: Let_def deref_valid get_head_hunk_def\<close>)
  then show ?thesis using s' e unfolding t(6) by blast
qed

lemma alloc_exhausted:
  assumes wf: "well_formed s as []"
    and ff: "first_fit (bytesF s) (unat w) (mem_arena_ptr s) as (pool_end s) = None"
  shows "real_alloc_loop s h w = Some (nullptr, s)"
proof -
  have ok: "rings_ok s as []" "layout_ok s as" using wf unfolding well_formed_def by auto
  have rk: "ring (mrF s) (lrF s) (mem_arena_ptr s) []" using ok(1) unfolding rings_ok_def by simp
  have lr: "lrF s (mem_arena_ptr s) = mem_arena_ptr s" using ring_head(2)[OF rk] by simp
  have v: "valid s (mem_arena_ptr s)" using rings_ok_valid[OF ok(1)] by simp
  show ?thesis
    by (subst real_alloc_loop.simps)
      (use try_alloc_none[OF ok ff] lr v in \<open>simp add: Let_def deref_valid get_head_hunk_def\<close>)
qed

lemma alloc_fit_not_null:
  assumes ok: "rings_ok s as ls" and lay: "layout_ok s as"
    and ff: "first_fit (bytesF s) (unat w) (mem_arena_ptr s) as (pool_end s) = Some i"
  shows "real_alloc_loop s h w \<noteq> Some (nullptr, s')"
proof
  assume a: "real_alloc_loop s h w = Some (nullptr, s')"
  define c where "c = last (mem_arena_ptr s # take i as)"
  have "c \<in> set (mem_arena_ptr s # take i as)" unfolding c_def by (rule last_in)
  then have "c \<in> set (mem_arena_ptr s # as)" using in_set_takeD[of c i as] by auto
  from layout_pos[OF lay this] have pnz: "c + bytesF s c \<noteq> nullptr" by simp
  have ta: "try_alloc s w = place_hunk s w (c + bytesF s c) (hd (drop i as @ [mem_arena_ptr s]))"
    unfolding try_alloc_eq[OF ok layout_pos[OF lay, of "mem_arena_ptr s", simplified]]
      place_at_def ff c_def by simp
  show False
    using a pnz place_hunk_result[of s w "c + bytesF s c" "hd (drop i as @ [mem_arena_ptr s])"]
    unfolding ta real_alloc_loop.simps[of s h w]
    by (auto simp: Let_def data_ptr_def split: Option.bind_splits if_splits)
qed

lemma alloc_fail_flushed:
  "well_formed s as ls \<Longrightarrow> real_alloc_loop s h w = Some (nullptr, s') \<Longrightarrow>
     well_formed s' [] [] \<and> mem_total_size s' = mem_total_size s \<and>
     mem_arena_ptr s' = mem_arena_ptr s"
proof (induction "length ls" arbitrary: s as ls)
  case 0
  then have ls: "ls = []" by simp
  have wf: "well_formed s as []" using "0.prems"(1) unfolding ls .
  have ok: "rings_ok s as []" "layout_ok s as" using wf unfolding well_formed_def by auto
  have as: "as = []" using ok(1) unfolding rings_ok_def by simp
  show ?case
  proof (cases "first_fit (bytesF s) (unat w) (mem_arena_ptr s) as (pool_end s)")
    case None
    from alloc_exhausted[OF wf None, of h] "0.prems"(2) have "s' = s" by simp
    then show ?thesis using wf as by simp
  next
    case (Some i)
    from alloc_fit_not_null[OF ok Some] "0.prems"(2) show ?thesis by simp
  qed
next
  case (Suc n)
  have ok: "rings_ok s as ls" "layout_ok s as" using Suc.prems(1) unfolding well_formed_def by auto
  have ne: "ls \<noteq> []" using Suc.hyps(2) by auto
  show ?case
  proof (cases "first_fit (bytesF s) (unat w) (mem_arena_ptr s) as (pool_end s)")
    case None
    obtain s1 where s1: "well_formed s1 (remove1 (last ls) as) (butlast ls)"
      "real_alloc_loop s h w = real_alloc_loop s1 h w"
      "mem_total_size s1 = mem_total_size s" "mem_arena_ptr s1 = mem_arena_ptr s"
      using alloc_evict[OF Suc.prems(1) ne None, of h] by blast
    have "n = length (butlast ls)" using Suc.hyps(2) by simp
    from Suc.hyps(1)[OF this s1(1)] Suc.prems(2) s1(2,3,4) show ?thesis by simp
  next
    case (Some i)
    from alloc_fit_not_null[OF ok Some] Suc.prems(2) show ?thesis by simp
  qed
qed

lemma m15: "(15 :: 64 word) = mask 4"
  by (simp add: mask_eq_exp_minus_1)

lemma w1: "(x :: 64 word) AND NOT 15 = push_bit 4 (drop_bit 4 x)"
  unfolding m15 by (rule bit_word_eqI) (auto simp: bit_simps)

lemma w3: "unat ((x :: 64 word) AND NOT 15) = (unat x div 16) * 16"
proof -
  have "unat x div 16 * 16 \<le> unat x" by simp
  also have "unat x < 2 ^ 64" using unsigned_less[of x, where 'a = nat] by simp
  finally have lt: "unat x div 16 * 16 < 2 ^ 64" .
  have "unat (push_bit 4 (drop_bit 4 x)) = take_bit 64 (push_bit 4 (drop_bit 4 (unat x)))"
    by (simp add: unsigned_push_bit_eq unat_drop_bit_eq)
  also have "\<dots> = take_bit 64 (unat x div 16 * 16)"
    by (simp add: push_bit_eq_mult drop_bit_eq_div)
  also have "\<dots> = unat x div 16 * 16"
    using lt by (simp add: take_bit_nat_eq_self)
  finally show ?thesis unfolding w1 .
qed

lemma w4: "unat ((x :: 64 word) AND - 16) = (unat x div 16) * 16"
  using w3[of x] by simp

lemma aligned_size_nat:
  assumes "unat n + 63 < 2 ^ 64"
  shows "unat (aligned_size n) = (unat n + 63) div 16 * 16"
proof -
  have "unat (n + 63) = unat n + 63"
    using assms by (simp add: unat_add_lem[THEN iffD1])
  then show ?thesis
    unfolding aligned_size_def sizeof_LRUMemoryHunk_def ALIGNMENT_MASK_def MEMORY_ALIGNMENT_def
    by (simp add: w4 add.assoc)
qed

lemma flush_wf:
  "well_formed s as ls \<Longrightarrow>
     \<exists>s'. flush s = Some s' \<and> release_in_order s as = Some s' \<and> well_formed s' [] [] \<and>
       mem_total_size s' = mem_total_size s \<and> mem_arena_ptr s' = mem_arena_ptr s"
proof (induction as arbitrary: s ls)
  case Nil
  have ok: "rings_ok s [] ls" using Nil unfolding well_formed_def by simp
  have ls: "ls = []" using ok unfolding rings_ok_def by simp
  have rk: "ring (nextF s) (prevF s) (mem_arena_ptr s) []" using ok unfolding rings_ok_def by simp
  have nx: "nextF s (mem_arena_ptr s) = mem_arena_ptr s" using ring_head(1)[OF rk] by simp
  have v: "valid s (mem_arena_ptr s)" using rings_ok_valid[OF ok] by simp
  have "flush s = Some s"
    by (subst flush.simps) (use nx v in \<open>simp add: Let_def deref_valid get_head_hunk_def\<close>)
  then show ?case using Nil ls by simp
next
  case (Cons a as)
  have ok: "rings_ok s (a # as) ls" using Cons.prems unfolding well_formed_def by simp
  have rk: "ring (nextF s) (prevF s) (mem_arena_ptr s) (a # as)" "distinct (mem_arena_ptr s # a # as)"
    using ok unfolding rings_ok_def by auto
  have nx: "nextF s (mem_arena_ptr s) = a" using ring_head(1)[OF rk(1)] by simp
  have ne: "a \<noteq> mem_arena_ptr s" using rk(2) by auto
  have v: "valid s (mem_arena_ptr s)" "valid s a" using rings_ok_valid[OF ok] by auto
  obtain s1 where s1: "real_free s (ownerF s a) = Some s1"
    "well_formed s1 (remove1 a (a # as)) (remove1 a ls)"
    "mem_total_size s1 = mem_total_size s" "mem_arena_ptr s1 = mem_arena_ptr s"
    using wf_free[OF Cons.prems, of a] by auto
  have "well_formed s1 as (remove1 a ls)" using s1(2) by simp
  from Cons.IH[OF this] obtain s' where s': "flush s1 = Some s'"
    "release_in_order s1 as = Some s'" "well_formed s' [] []"
    "mem_total_size s' = mem_total_size s1" "mem_arena_ptr s' = mem_arena_ptr s1"
    by blast
  have "flush s = Some s'"
    by (subst flush.simps)
      (use nx ne v s1(1) s'(1) in \<open>simp add: Let_def deref_valid get_head_hunk_def\<close>)
  then show ?case using s1 s' by simp
qed

lemma wf_empty_iter:
  assumes "well_formed s [] []"
  shows "begin_iter s True = Some nullptr" "begin_iter s False = Some nullptr"
    "end_iter s = Some nullptr" "handle_at s h = nullptr"
proof -
  have ok: "rings_ok s [] []" "handles_ok s []" using assms unfolding well_formed_def by auto
  have rk: "ring (nextF s) (prevF s) (mem_arena_ptr s) []"
    "ring (mrF s) (lrF s) (mem_arena_ptr s) []"
    using ok(1) unfolding rings_ok_def by auto
  have nx: "nextF s (mem_arena_ptr s) = mem_arena_ptr s" "mrF s (mem_arena_ptr s) = mem_arena_ptr s"
    using ring_head(1)[OF rk(1)] ring_head(1)[OF rk(2)] by simp_all
  have v: "valid s (mem_arena_ptr s)" using rings_ok_valid[OF ok(1)] by simp
  have o: "ownerF s (mem_arena_ptr s) = nullptr" using ok(2) unfolding handles_ok_def by simp
  show "begin_iter s True = Some nullptr" "begin_iter s False = Some nullptr"
    "end_iter s = Some nullptr"
    unfolding begin_iter_def end_iter_def get_head_hunk_def
    using nx v o by (simp_all add: deref_valid)
  show "handle_at s h = nullptr" using ok(2) unfolding handles_ok_def by auto
qed

lemma links_unique:
  "links nx (c # xs @ [b]) \<Longrightarrow> links nx (c # ys @ [b]) \<Longrightarrow> b \<notin> set xs \<Longrightarrow> b \<notin> set ys \<Longrightarrow>
     xs = ys"
proof (induction xs arbitrary: c ys)
  case Nil
  then show ?case by (cases ys) auto
next
  case (Cons x xs)
  then show ?case by (cases ys) auto
qed

lemma rings_unique:
  assumes "rings_ok s as ls" "rings_ok s as' ls'"
  shows "as = as' \<and> ls = ls'"
proof -
  have a: "links (nextF s) (mem_arena_ptr s # as @ [mem_arena_ptr s])"
    "links (nextF s) (mem_arena_ptr s # as' @ [mem_arena_ptr s])"
    "links (mrF s) (mem_arena_ptr s # ls @ [mem_arena_ptr s])"
    "links (mrF s) (mem_arena_ptr s # ls' @ [mem_arena_ptr s])"
    "mem_arena_ptr s \<notin> set as" "mem_arena_ptr s \<notin> set as'"
    "mem_arena_ptr s \<notin> set ls" "mem_arena_ptr s \<notin> set ls'"
    using assms unfolding rings_ok_def ring_def by auto
  show ?thesis
    using links_unique[OF a(1,2,5,6)] links_unique[OF a(3,4,7,8)] by simp
qed

lemmas wf_defs = well_formed_def rings_ok_def layout_ok_def handles_ok_def ring_def hunk_def
  live_def sizeof_LRUMemoryHunk_def MEMORY_ALIGNMENT_def

lemma arena0_new: "LRUMemoryManager 1000 2048 = Some arena0"
  by (simp add: LRUMemoryManager_def arena0_def expects_def LRUMemoryHunk_init_def
      sizeof_LRUMemoryHunk_def)

lemma arena0_wf: "well_formed arena0 [] []"
  by (simp add: wf_defs arena0_def)

lemma arena1_wf: "well_formed arena1 [1048] [1048]"
  by (auto simp add: wf_defs arena1_def)

lemma arena2_wf: "well_formed arena2 [1048, 1656] [1048, 1656]"
  by (auto simp add: wf_defs arena2_def)

lemma try_alloc_null:
  assumes ok: "rings_ok s as ls" and lay: "layout_ok s as"
    and ta: "try_alloc s w = Some (nullptr, s1)"
  shows "first_fit (bytesF s) (unat w) (mem_arena_ptr s) as (pool_end s) = None" "s1 = s"
proof -
  have n: "first_fit (bytesF s) (unat w) (mem_arena_ptr s) as (pool_end s) = None"
  proof (cases "first_fit (bytesF s) (unat w) (mem_arena_ptr s) as (pool_end s)")
    case None
    then show ?thesis .
  next
    case (Some i)
    define c where "c = last (mem_arena_ptr s # take i as)"
    have "c \<in> set (mem_arena_ptr s # take i as)" unfolding c_def by (rule last_in)
    then have "c \<in> set (mem_arena_ptr s # as)" using in_set_takeD[of c i as] by auto
    from layout_pos[OF lay this] have pnz: "c + bytesF s c \<noteq> nullptr" by simp
    have "try_alloc s w = place_hunk s w (c + bytesF s c) (hd (drop i as @ [mem_arena_ptr s]))"
      unfolding try_alloc_eq[OF ok layout_pos[OF lay, of "mem_arena_ptr s", simplified]]
        place_at_def Some c_def by simp
    with ta place_hunk_result[of s w "c + bytesF s c" _ nullptr s1] pnz show ?thesis by simp
  qed
  then show "first_fit (bytesF s) (unat w) (mem_arena_ptr s) as (pool_end s) = None" .
  from try_alloc_none[OF ok lay n] ta show "s1 = s" by simp
qed

lemma wf_empty_unique:
  assumes wf: "well_formed s [] []"
  shows "LRUMemoryManager (mem_arena_ptr s) (mem_total_size s) = Some s"
proof -
  define b where "b = mem_arena_ptr s"
  have ok: "rings_ok s [] []" "layout_ok s []" "handles_ok s []"
    using wf unfolding well_formed_def by auto
  have rk: "b \<noteq> nullptr" "live s = {b}" "ring (nextF s) (prevF s) b []" "ring (mrF s) (lrF s) b []"
    using ok(1) unfolding rings_ok_def b_def by auto
  have l: "size_field (hunk s b) = sizeof_LRUMemoryHunk" "b + bytesF s b \<le> b + unat (mem_total_size s)"
    "unat (mem_allocated_size s) = bytesF s b"
    using ok(2) unfolding layout_ok_def b_def by auto
  have o: "ownerF s b = nullptr" using ok(3) unfolding handles_ok_def b_def by simp
  have f: "nextF s b = b" "prevF s b = b" "mrF s b = b" "lrF s b = b"
    using ring_head[OF rk(3)] ring_head[OF rk(4)] by simp_all
  have "unat (mem_total_size s) \<noteq> 0" using l(1,2) by (simp add: sizeof_LRUMemoryHunk_def)
  then have tp: "0 < mem_total_size s" by (simp add: word_greater_zero_iff unat_eq_0)
  have al: "mem_allocated_size s = sizeof_LRUMemoryHunk"
    using l(1,3) by (simp add: word_unat_eq_iff)
  have hk: "hunk s b = LRUMemoryHunk_init\<lparr>next_ptr := b, prev_ptr := b,
               most_recent_ptr := b, least_recent_ptr := b,
               size_field := sizeof_LRUMemoryHunk\<rparr>"
    using f l(1) o by (simp add: LRUMemoryHunk_init_def)
  have "b \<in> dom (hunk_at s)" using rk(2) unfolding live_def by simp
  then have hb: "hunk_at s b = Some (hunk s b)" unfolding hunk_def by auto
  have hn: "hunk_at s a = None" if "a \<noteq> b" for a
    using rk(2) that unfolding live_def by auto
  have ha: "hunk_at s = [b \<mapsto> LRUMemoryHunk_init\<lparr>next_ptr := b, prev_ptr := b,
               most_recent_ptr := b, least_recent_ptr := b,
               size_field := sizeof_LRUMemoryHunk\<rparr>]"
    using hb hn hk by (auto simp: fun_eq_iff)
  have hd: "handle_at s = (\<lambda>_. nullptr)" using wf_empty_iter(4)[OF wf] by (simp add: fun_eq_iff)
  have "\<lparr>mem_total_size = mem_total_size s, mem_allocated_size = sizeof_LRUMemoryHunk,
          mem_arena_ptr = b,
          hunk_at = [b \<mapsto> LRUMemoryHunk_init\<lparr>next_ptr := b, prev_ptr := b,
               most_recent_ptr := b, least_recent_ptr := b,
               size_field := sizeof_LRUMemoryHunk\<rparr>],
          handle_at = (\<lambda>_. nullptr)\<rparr> = s"
    by (rule mm.equality) (simp_all add: ha hd al b_def)
  then show ?thesis
    unfolding LRUMemoryManager_def b_def[symmetric]
    using tp rk(1) by (simp add: expects_def Let_def)
qed


lemma real_alloc_aligned: "real_alloc s h n = real_alloc_loop s h (aligned_size n)"
  unfolding real_alloc_def aligned_size_def by (simp add: Let_def)

lemma aligned_size_round_up:
  assumes "unat n + 63 < 2 ^ 64"
  shows "unat (aligned_size n) = round_up (unat n + unat sizeof_LRUMemoryHunk) 16"
    "unat sizeof_LRUMemoryHunk \<le> unat (aligned_size n)"
    "unat MEMORY_ALIGNMENT dvd unat (aligned_size n)"
proof -
  have a: "unat (aligned_size n) = (unat n + 63) div 16 * 16"
    using assms by (rule aligned_size_nat)
  show "unat (aligned_size n) = round_up (unat n + unat sizeof_LRUMemoryHunk) 16"
    unfolding a round_up_def sizeof_LRUMemoryHunk_def by simp
  have "48 \<le> (unat n + 63) div 16 * 16" by presburger
  then show "unat sizeof_LRUMemoryHunk \<le> unat (aligned_size n)"
    unfolding a sizeof_LRUMemoryHunk_def by simp
  show "unat MEMORY_ALIGNMENT dvd unat (aligned_size n)"
    unfolding a MEMORY_ALIGNMENT_def by simp
qed

lemma LRUMemoryManager_wf:
  assumes "malloc_result \<noteq> nullptr" "unat sizeof_LRUMemoryHunk \<le> unat mem_pool_size"
  shows "\<exists>s. LRUMemoryManager malloc_result mem_pool_size = Some s \<and> well_formed s [] [] \<and>
           mem_arena_ptr s = malloc_result \<and> mem_total_size s = mem_pool_size"
proof -
  have "unat mem_pool_size \<noteq> 0" using assms(2) by (simp add: sizeof_LRUMemoryHunk_def)
  then have "0 < mem_pool_size" by (simp add: word_greater_zero_iff unat_eq_0)
  then show ?thesis
    using assms
    by (simp add: LRUMemoryManager_def expects_def Let_def wf_defs LRUMemoryHunk_init_def)
qed

lemma alloc_first_pass:
  assumes wf: "well_formed s as ls" and h: "h \<noteq> nullptr" "handle_at s h = nullptr"
    and ff: "first_fit (bytesF s) (unat w) (mem_arena_ptr s) as (pool_end s) = Some i"
    and w: "unat sizeof_LRUMemoryHunk \<le> unat w" "unat MEMORY_ALIGNMENT dvd unat w"
    and p: "p = last (mem_arena_ptr s # take i as) + bytesF s (last (mem_arena_ptr s # take i as))"
  shows "\<exists>s'. real_alloc_loop s h w = Some (data_ptr p, s') \<and>
           well_formed s' (take i as @ p # drop i as) (p # ls) \<and>
           mem_total_size s' = mem_total_size s \<and> mem_arena_ptr s' = mem_arena_ptr s \<and>
           handle_at s' = (handle_at s)(h := p) \<and> ownerF s' = (ownerF s)(p := h)"
proof -
  have ok: "rings_ok s as ls" "layout_ok s as" "handles_ok s as"
    using wf unfolding well_formed_def by auto
  obtain s' where s': "real_alloc_loop s h w = Some (data_ptr p, s')"
    "rings_ok s' (take i as @ p # drop i as) (p # ls)"
    "layout_ok s' (take i as @ p # drop i as)"
    "mem_total_size s' = mem_total_size s" "mem_arena_ptr s' = mem_arena_ptr s"
    "handle_at s' = (handle_at s)(h := p)" "ownerF s' = (ownerF s)(p := h)"
    "p \<noteq> nullptr" "p \<notin> set (mem_arena_ptr s # as)"
    using alloc_place[OF ok(1,2) h(1) ff w p] by blast
  have z: "nullptr \<notin> set as" using ok(1) unfolding rings_ok_def by simp
  have "set (take i as) \<union> set (drop i as) = set as"
    by (metis append_take_drop_id set_append)
  then have st: "set (take i as @ p # drop i as) = insert p (set as)" by auto
  have "handles_ok s' (take i as @ p # drop i as)"
    using bind_handles[OF ok(3) h s'(8,9) z s'(5,6,7) st] .
  then show ?thesis using s' unfolding well_formed_def by blast
qed

lemma evict_lru_empty:
  assumes "well_formed s as []"
  shows "evict_lru s = None"
proof -
  have ok: "rings_ok s as []" "handles_ok s as" using assms unfolding well_formed_def by auto
  have rk: "ring (mrF s) (lrF s) (mem_arena_ptr s) []" using ok(1) unfolding rings_ok_def by simp
  have lr: "lrF s (mem_arena_ptr s) = mem_arena_ptr s" using ring_head(2)[OF rk] by simp
  have v: "valid s (mem_arena_ptr s)" using rings_ok_valid[OF ok(1)] by simp
  have o: "ownerF s (mem_arena_ptr s) = nullptr" using ok(2) unfolding handles_ok_def by simp
  show ?thesis
    unfolding evict_lru_def get_head_hunk_def
    using lr v o by (simp add: deref_valid real_free_def get_hunk_ptr_def)
qed

lemma failed_passes:
  "well_formed s as ls \<Longrightarrow> evict_n k s = Some t \<Longrightarrow>
   (\<And>j. j < k \<Longrightarrow> \<exists>u. evict_n j s = Some u \<and> try_alloc u w = Some (nullptr, u)) \<Longrightarrow>
     \<exists>as' ls'. well_formed t as' ls' \<and> real_alloc_loop s h w = real_alloc_loop t h w \<and>
       length ls' + k = length ls \<and> set as' \<subseteq> set as \<and>
       mem_total_size t = mem_total_size s \<and> mem_arena_ptr t = mem_arena_ptr s \<and>
       (\<forall>x. handle_at t x = nullptr \<or> handle_at t x = handle_at s x)"
proof (induction k arbitrary: s as ls)
  case 0
  then show ?case by auto
next
  case (Suc k)
  have ok: "rings_ok s as ls" "layout_ok s as" using Suc.prems(1) unfolding well_formed_def by auto
  obtain s1 where s1: "evict_lru s = Some s1" "evict_n k s1 = Some t"
    using Suc.prems(2) by (auto split: Option.bind_splits)
  have "try_alloc s w = Some (nullptr, s)" using Suc.prems(3)[of 0] by simp
  note n = try_alloc_null(1)[OF ok this]
  have ne: "ls \<noteq> []" using evict_lru_empty[of s as] Suc.prems(1) s1(1) by auto
  obtain s1' where s1': "evict_lru s = Some s1'"
    "well_formed s1' (remove1 (last ls) as) (butlast ls)"
    "real_alloc_loop s h w = real_alloc_loop s1' h w"
    "mem_total_size s1' = mem_total_size s" "mem_arena_ptr s1' = mem_arena_ptr s"
    "handle_at s1' = (handle_at s)(ownerF s (last ls) := nullptr)"
    using alloc_evict[OF Suc.prems(1) ne n, of h] by blast
  have e: "s1' = s1" using s1(1) s1'(1) by simp
  have p: "\<exists>u. evict_n j s1 = Some u \<and> try_alloc u w = Some (nullptr, u)" if "j < k" for j
    using Suc.prems(3)[of "Suc j"] that s1(1) by simp
  from Suc.IH[OF s1'(2)[unfolded e] s1(2) p]
  obtain as' ls' where r: "well_formed t as' ls'" "real_alloc_loop s1 h w = real_alloc_loop t h w"
    "length ls' + k = length (butlast ls)" "set as' \<subseteq> set (remove1 (last ls) as)"
    "mem_total_size t = mem_total_size s1" "mem_arena_ptr t = mem_arena_ptr s1"
    "\<forall>x. handle_at t x = nullptr \<or> handle_at t x = handle_at s1 x"
    by blast
  have "length ls' + Suc k = length ls" using r(3) ne by simp
  moreover have "set as' \<subseteq> set as" using r(4) set_remove1_subset[of "last ls" as] by blast
  moreover have "\<forall>x. handle_at t x = nullptr \<or> handle_at t x = handle_at s x"
    using r(7) s1'(6) unfolding e by (metis fun_upd_apply)
  ultimately show ?case
    using r(1,2,5,6) s1'(3,4,5) unfolding e
    by (intro exI[of _ as'] exI[of _ ls']) simp
qed

lemma alloc_passes:
  assumes h: "h \<noteq> nullptr"
    and w: "unat sizeof_LRUMemoryHunk \<le> unat w" "unat MEMORY_ALIGNMENT dvd unat w"
  shows "well_formed s as ls \<Longrightarrow>
     \<exists>k t r s'. k \<le> length ls \<and> evict_n k s = Some t \<and>
       (\<forall>j<k. \<exists>u. evict_n j s = Some u \<and> try_alloc u w = Some (nullptr, u)) \<and>
       real_alloc_loop s h w = Some (r, s') \<and> real_alloc_loop t h w = Some (r, s') \<and>
       (if r = nullptr then k = length ls \<and> s' = t \<and> try_alloc t w = Some (nullptr, t)
        else \<exists>p u. try_alloc t w = Some (p, u) \<and> p \<noteq> nullptr \<and> r = data_ptr p)"
proof (induction "length ls" arbitrary: s as ls)
  case 0
  then have ls: "ls = []" by simp
  have wf: "well_formed s as []" using "0.prems" unfolding ls .
  have ok: "rings_ok s as []" "layout_ok s as" using wf unfolding well_formed_def by auto
  show ?case
  proof (cases "first_fit (bytesF s) (unat w) (mem_arena_ptr s) as (pool_end s)")
    case None
    have "real_alloc_loop s h w = Some (nullptr, s)" using alloc_exhausted[OF wf None] .
    moreover have "try_alloc s w = Some (nullptr, s)" using try_alloc_none[OF ok None] .
    ultimately show ?thesis unfolding ls by (intro exI[of _ 0] exI[of _ s] exI[of _ nullptr]) simp
  next
    case (Some i)
    define p where "p = last (mem_arena_ptr s # take i as) + bytesF s (last (mem_arena_ptr s # take i as))"
    obtain s' where s': "real_alloc_loop s h w = Some (data_ptr p, s')" "p \<noteq> nullptr"
      "\<exists>u. try_alloc s w = Some (p, u)"
      using alloc_place[OF ok h Some w p_def] by blast
    from s'(3) show ?thesis using s' unfolding ls
      by (intro exI[of _ 0] exI[of _ s] exI[of _ "data_ptr p"] exI[of _ s'])
        (auto simp: data_ptr_def)
  qed
next
  case (Suc n)
  have ok: "rings_ok s as ls" "layout_ok s as" using Suc.prems unfolding well_formed_def by auto
  have ne: "ls \<noteq> []" using Suc.hyps(2) by auto
  show ?case
  proof (cases "first_fit (bytesF s) (unat w) (mem_arena_ptr s) as (pool_end s)")
    case None
    obtain s1 where s1: "evict_lru s = Some s1"
      "well_formed s1 (remove1 (last ls) as) (butlast ls)"
      "real_alloc_loop s h w = real_alloc_loop s1 h w"
      using alloc_evict[OF Suc.prems ne None, of h] by blast
    have ta: "try_alloc s w = Some (nullptr, s)" using try_alloc_none[OF ok None] .
    have "n = length (butlast ls)" using Suc.hyps(2) by simp
    from Suc.hyps(1)[OF this s1(2)]
    obtain k t r s' where k: "k \<le> length (butlast ls)" "evict_n k s1 = Some t"
      "\<forall>j<k. \<exists>u. evict_n j s1 = Some u \<and> try_alloc u w = Some (nullptr, u)"
      "real_alloc_loop s1 h w = Some (r, s')" "real_alloc_loop t h w = Some (r, s')"
      "if r = nullptr then k = length (butlast ls) \<and> s' = t \<and> try_alloc t w = Some (nullptr, t)
        else \<exists>p u. try_alloc t w = Some (p, u) \<and> p \<noteq> nullptr \<and> r = data_ptr p"
      by blast
    have len: "Suc (length (butlast ls)) = length ls"
      using ne by (cases ls rule: rev_cases) auto
    have 1: "Suc k \<le> length ls" using k(1) len by linarith
    have 2: "evict_n (Suc k) s = Some t" using s1(1) k(2) by simp
    have 3: "\<exists>u. evict_n j s = Some u \<and> try_alloc u w = Some (nullptr, u)" if "j < Suc k" for j
    proof (cases j)
      case 0
      then show ?thesis using ta by simp
    next
      case (Suc j')
      then show ?thesis using k(3) that s1(1) by simp
    qed
    have 4: "if r = nullptr then Suc k = length ls \<and> s' = t \<and> try_alloc t w = Some (nullptr, t)
        else \<exists>p u. try_alloc t w = Some (p, u) \<and> p \<noteq> nullptr \<and> r = data_ptr p"
      using k(6) len by (auto split: if_splits)
    show ?thesis
      using 1 2 3 4 k(4,5) s1(3)
      by (intro exI[of _ "Suc k"] exI[of _ t] exI[of _ r] exI[of _ s']) simp
  next
    case (Some i)
    define p where "p = last (mem_arena_ptr s # take i as) + bytesF s (last (mem_arena_ptr s # take i as))"
    obtain s' where s': "real_alloc_loop s h w = Some (data_ptr p, s')" "p \<noteq> nullptr"
      "\<exists>u. try_alloc s w = Some (p, u)"
      using alloc_place[OF ok h Some w p_def] by blast
    from s'(3) show ?thesis using s'
      by (intro exI[of _ 0] exI[of _ s] exI[of _ "data_ptr p"] exI[of _ s'])
        (auto simp: data_ptr_def)
  qed
qed

lemma free_bound:
  assumes wf: "well_formed s as ls" and h: "handle_at s h \<noteq> nullptr"
  shows "\<exists>s'. real_free s h = Some s' \<and>
           well_formed s' (remove1 (handle_at s h) as) (remove1 (handle_at s h) ls) \<and>
           mem_total_size s' = mem_total_size s \<and> mem_arena_ptr s' = mem_arena_ptr s \<and>
           handle_at s' = (handle_at s)(h := nullptr)"
proof -
  have "handles_ok s as" using wf unfolding well_formed_def by simp
  then have p: "handle_at s h \<in> set as" "ownerF s (handle_at s h) = h"
    using h unfolding handles_ok_def by auto
  show ?thesis using wf_free[OF wf p(1)] unfolding p(2) .
qed

lemma first_fit_spec_eq:
  "laid_out sz c xs e \<Longrightarrow>
     first_fit_spec r (gaps sz c xs e) =
       map_option (\<lambda>i. last (c # take i xs) + sz (last (c # take i xs))) (first_fit sz r c xs e)"
proof (induction xs arbitrary: c)
  case Nil
  then show ?case by (auto simp: first_fit_spec_def)
next
  case (Cons x xs)
  have l: "c + sz c \<le> x" "laid_out sz x xs e" using Cons.prems by auto
  have c: "r \<le> x - (c + sz c) \<longleftrightarrow> c + sz c + r \<le> x" using l(1) by auto
  show ?case
  proof (cases "c + sz c + r \<le> x")
    case True
    then show ?thesis using c by (simp add: first_fit_spec_def)
  next
    case False
    have "first_fit_spec r (gaps sz c (x # xs) e) = first_fit_spec r (gaps sz x xs e)"
      using False c by (simp add: first_fit_spec_def)
    also have "\<dots> = map_option (\<lambda>i. last (x # take i xs) + sz (last (x # take i xs)))
        (first_fit sz r x xs e)"
      using Cons.IH[OF l(2)] .
    finally show ?thesis using False by (simp add: option.map_comp comp_def)
  qed
qed

lemma try_alloc_first_fit:
  assumes wf: "well_formed s as ls"
    and w: "unat sizeof_LRUMemoryHunk \<le> unat w" "unat MEMORY_ALIGNMENT dvd unat w"
  shows "case first_fit_spec (unat w) (gaps (bytesF s) (mem_arena_ptr s) as (pool_end s)) of
           None \<Rightarrow> try_alloc s w = Some (nullptr, s)
         | Some p \<Rightarrow> \<exists>s'. try_alloc s w = Some (p, s') \<and> p \<noteq> nullptr \<and>
             bytesF s' p = unat w \<and> live s' = insert p (live s)"
proof -
  have ok: "rings_ok s as ls" "layout_ok s as" using wf unfolding well_formed_def by auto
  have lo: "laid_out (bytesF s) (mem_arena_ptr s) as (pool_end s)"
    using ok(2) unfolding layout_ok_def pool_end_def by simp
  note e = first_fit_spec_eq[OF lo, of "unat w"]
  show ?thesis
  proof (cases "first_fit (bytesF s) (unat w) (mem_arena_ptr s) as (pool_end s)")
    case None
    then show ?thesis using try_alloc_none[OF ok None] unfolding e by simp
  next
    case (Some i)
    define p where
      "p = last (mem_arena_ptr s # take i as) + bytesF s (last (mem_arena_ptr s # take i as))"
    have as: "as = take i as @ drop i as" by simp
    have fit: "p + unat w \<le> hd (drop i as @ [pool_end s])"
      using first_fit_Some[OF Some] unfolding p_def by simp
    obtain s' where s': "place_hunk s w p (hd (drop i as @ [mem_arena_ptr s])) = Some (p, s')"
      "rings_ok s' (take i as @ p # drop i as) (p # ls)" "layout_ok s' (take i as @ p # drop i as)"
      "mem_arena_ptr s' = mem_arena_ptr s" "bytesF s' p = unat w"
      using place_wf[OF ok as p_def fit w] by blast
    have ta: "try_alloc s w = Some (p, s')"
      unfolding try_alloc_eq[OF ok(1) layout_pos[OF ok(2), of "mem_arena_ptr s", simplified]]
        place_at_def Some using s'(1) p_def by simp
    have li: "live s' = insert p (live s)"
    proof -
      have "set (take i as) \<union> set (drop i as) = set as"
        by (metis append_take_drop_id set_append)
      then show ?thesis
        using s'(2) ok(1) unfolding rings_ok_def s'(4) by auto
    qed
    have pin: "p \<in> set (mem_arena_ptr s' # take i as @ p # drop i as)" by simp
    have "valid s' p" using rings_ok_valid[OF s'(2) pin] .
    then have pnz: "p \<noteq> nullptr" by (simp add: valid_def)
    have "first_fit_spec (unat w) (gaps (bytesF s) (mem_arena_ptr s) as (pool_end s)) = Some p"
      unfolding e Some p_def by simp
    moreover have "\<exists>s'. try_alloc s w = Some (p, s') \<and> p \<noteq> nullptr \<and>
             bytesF s' p = unat w \<and> live s' = insert p (live s)"
      using ta pnz li s'(5) by blast
    ultimately show ?thesis by simp
  qed
qed

lemma laid_out_apart:
  "laid_out sz c xs e \<Longrightarrow> sorted_wrt (\<lambda>a b. a + sz a \<le> b) (c # xs)"
proof (induction xs arbitrary: c)
  case Nil
  then show ?case by simp
next
  case (Cons x xs)
  have "sorted_wrt (\<lambda>a b. a + sz a \<le> b) (x # xs)" using Cons.IH[of x] Cons.prems by simp
  moreover have "\<forall>a\<in>set (x # xs). c + sz c \<le> a"
    using laid_out_above[OF Cons.prems] by blast
  ultimately show ?case by simp
qed

lemma laid_out_within:
  "laid_out sz c xs e \<Longrightarrow> a \<in> set (c # xs) \<Longrightarrow> a + sz a \<le> e"
proof (induction xs arbitrary: c a)
  case Nil
  then show ?case by simp
next
  case (Cons x xs)
  have l: "c + sz c \<le> x" "laid_out sz x xs e" using Cons.prems(1) by auto
  show ?case
  proof (cases "a = c")
    case True
    have "x + sz x \<le> e" using Cons.IH[OF l(2), of x] by simp
    then show ?thesis using True l(1) by simp
  next
    case False
    then have "a \<in> set (x # xs)" using Cons.prems(2) by simp
    then show ?thesis using Cons.IH[OF l(2)] by blast
  qed
qed

lemma wf_layout:
  assumes wf: "well_formed s as ls"
  shows "sorted_wrt (<) (mem_arena_ptr s # as)"
    and "sorted_wrt (\<lambda>a b. a + bytesF s a \<le> b) (mem_arena_ptr s # as)"
    and "\<forall>a\<in>set (mem_arena_ptr s # as). a + bytesF s a \<le> pool_end s"
    and "\<forall>a\<in>set (mem_arena_ptr s # as).
           unat sizeof_LRUMemoryHunk \<le> bytesF s a \<and> unat MEMORY_ALIGNMENT dvd bytesF s a"
    and "mem_allocated_size s \<le> mem_total_size s"
proof -
  have lay: "layout_ok s as" using wf unfolding well_formed_def by simp
  have lo: "laid_out (bytesF s) (mem_arena_ptr s) as (pool_end s)"
    using lay unfolding layout_ok_def pool_end_def by simp
  show ap: "sorted_wrt (\<lambda>a b. a + bytesF s a \<le> b) (mem_arena_ptr s # as)"
    using laid_out_apart[OF lo] .
  have "a < b" if "a \<in> set (mem_arena_ptr s # as)" "a + bytesF s a \<le> b" for a b
    using layout_pos[OF lay that(1)] that(2) by simp
  then show "sorted_wrt (<) (mem_arena_ptr s # as)"
    using sorted_wrt_mono_rel[OF _ ap, of "(<)"] by blast
  show "\<forall>a\<in>set (mem_arena_ptr s # as). a + bytesF s a \<le> pool_end s"
    using laid_out_within[OF lo] by blast
  have hd: "bytesF s (mem_arena_ptr s) = 48"
    using lay unfolding layout_ok_def by (simp add: sizeof_LRUMemoryHunk_def)
  show "\<forall>a\<in>set (mem_arena_ptr s # as).
           unat sizeof_LRUMemoryHunk \<le> bytesF s a \<and> unat MEMORY_ALIGNMENT dvd bytesF s a"
    using lay hd unfolding layout_ok_def
    by (auto simp: sizeof_LRUMemoryHunk_def MEMORY_ALIGNMENT_def)
  have "mem_arena_ptr s + unat (mem_allocated_size s) \<le> pool_end s"
    using laid_out_sum[OF lo] lay unfolding layout_ok_def by simp
  then have "unat (mem_allocated_size s) \<le> unat (mem_total_size s)"
    unfolding pool_end_def by simp
  then show "mem_allocated_size s \<le> mem_total_size s" by (simp add: word_le_nat_alt)
qed

lemma alloc_wf:
  assumes wf: "well_formed s as ls" and h: "h \<noteq> nullptr" "handle_at s h = nullptr"
    and n: "unat n + 63 < 2 ^ 64"
  shows "\<exists>r s' as' ls'. alloc s h n = Some (r, s') \<and> well_formed s' as' ls' \<and>
           mem_total_size s' = mem_total_size s \<and> mem_arena_ptr s' = mem_arena_ptr s"
proof -
  define w where "w = aligned_size n"
  have w: "unat sizeof_LRUMemoryHunk \<le> unat w" "unat MEMORY_ALIGNMENT dvd unat w"
    using aligned_size_round_up(2,3)[OF n] unfolding w_def by auto
  have al: "alloc s h n = real_alloc_loop s h w"
    unfolding alloc_def w_def by (rule real_alloc_aligned)
  obtain k t r s' where k: "k \<le> length ls" "evict_n k s = Some t"
      "\<forall>j<k. \<exists>u. evict_n j s = Some u \<and> try_alloc u w = Some (nullptr, u)"
      "real_alloc_loop s h w = Some (r, s')" "real_alloc_loop t h w = Some (r, s')"
      "if r = nullptr then k = length ls \<and> s' = t \<and> try_alloc t w = Some (nullptr, t)
        else \<exists>p u. try_alloc t w = Some (p, u) \<and> p \<noteq> nullptr \<and> r = data_ptr p"
    using alloc_passes[OF h(1) w wf] by blast
  have "\<exists>u. evict_n j s = Some u \<and> try_alloc u w = Some (nullptr, u)" if "j < k" for j
    using k(3) that by blast
  from failed_passes[OF wf k(2) this, of h]
  obtain as' ls' where t: "well_formed t as' ls'"
      "mem_total_size t = mem_total_size s" "mem_arena_ptr t = mem_arena_ptr s"
      "\<forall>x. handle_at t x = nullptr \<or> handle_at t x = handle_at s x"
    by blast
  have th: "handle_at t h = nullptr" using t(4) h(2) by metis
  have ok: "rings_ok t as' ls'" "layout_ok t as'" using t(1) unfolding well_formed_def by auto
  show ?thesis
  proof (cases "r = nullptr")
    case True
    then have "s' = t" using k(6) by simp
    then show ?thesis using t k(4) al by auto
  next
    case False
    then obtain p u where p: "try_alloc t w = Some (p, u)" "p \<noteq> nullptr"
      using k(6) by auto
    have "first_fit (bytesF t) (unat w) (mem_arena_ptr t) as' (pool_end t) \<noteq> None"
      using try_alloc_none[OF ok, of w] p by auto
    then obtain i where i: "first_fit (bytesF t) (unat w) (mem_arena_ptr t) as' (pool_end t) = Some i"
      by blast
    from alloc_first_pass[OF t(1) h(1) th i w refl]
    obtain s'' where s'': "real_alloc_loop t h w = Some (data_ptr
        (last (mem_arena_ptr t # take i as') + bytesF t (last (mem_arena_ptr t # take i as'))), s'')"
      "well_formed s'' (take i as' @
        (last (mem_arena_ptr t # take i as') + bytesF t (last (mem_arena_ptr t # take i as'))) # drop i as')
        ((last (mem_arena_ptr t # take i as') + bytesF t (last (mem_arena_ptr t # take i as'))) # ls')"
      "mem_total_size s'' = mem_total_size t" "mem_arena_ptr s'' = mem_arena_ptr t"
      by blast
    have "s'' = s'" using s''(1) k(5) by simp
    then show ?thesis using s''(2,3,4) t(2,3) k(4) al by auto
  qed
qed

section \<open>The claims\<close>

text \<open>
  Claim C5. \<^verbatim>\<open>get_buffer_and_refresh\<close> on an unbound handle returns a null pointer and
  changes nothing. On a handle bound to the hunk \<open>p\<close> of a well-formed arena it returns the
  payload pointer of \<open>p\<close>; afterwards the arena is well-formed with the same address ring
  \<open>as\<close> and with the recency ring \<open>p # remove1 p ls\<close>: \<open>p\<close> is the most recently used hunk
  and the other hunks keep their relative order. The address links, the owners, the sizes,
  the handles and the consumed byte count are unchanged.
\<close>

theorem get_buffer_and_refresh_frame:
  assumes "well_formed s as ls" and "handle_ptr \<noteq> nullptr"
  shows "if handle_at s handle_ptr = nullptr
         then get_buffer_and_refresh s handle_ptr = Some (nullptr, s)
         else \<exists>s'. get_buffer_and_refresh s handle_ptr =
                  Some (data_ptr (handle_at s handle_ptr), s') \<and>
                well_formed s' as (handle_at s handle_ptr # remove1 (handle_at s handle_ptr) ls) \<and>
                handle_at s' = handle_at s \<and>
                mem_allocated_size s' = mem_allocated_size s \<and>
                nextF s' = nextF s \<and> prevF s' = prevF s \<and> ownerF s' = ownerF s \<and>
                bytesF s' = bytesF s"
proof (cases "handle_at s handle_ptr = nullptr")
  case True
  then show ?thesis
    using get_buffer_unbound[OF assms(2)] unfolding get_buffer_and_refresh_def by simp
next
  case False
  obtain s' where s': "real_get_buffer s handle_ptr = Some (data_ptr (handle_at s handle_ptr), s')"
    "well_formed s' as (handle_at s handle_ptr # remove1 (handle_at s handle_ptr) ls)"
    "mem_allocated_size s' = mem_allocated_size s" "handle_at s' = handle_at s"
    "nextF s' = nextF s" "prevF s' = prevF s" "ownerF s' = ownerF s"
    "(\<lambda>a. size_field (hunk s' a)) = (\<lambda>a. size_field (hunk s a))"
    using wf_refresh[OF assms False] by blast
  have "bytesF s' = bytesF s" using s'(8) by (auto simp: fun_eq_iff)
  then show ?thesis
    using False s' unfolding get_buffer_and_refresh_def by auto
qed

theorem get_buffer_and_refresh_frame_witness:
  "get_buffer_and_refresh arena2 3 = Some (nullptr, arena2) \<and>
   (\<exists>s'. get_buffer_and_refresh arena2 1 = Some (1704, s') \<and>
      well_formed s' [1048, 1656] [1656, 1048])"
proof -
  have a: "handle_at arena2 3 = nullptr" "handle_at arena2 1 = 1656"
    by (simp_all add: arena2_def)
  have d: "data_ptr 1656 = 1704" by (simp add: data_ptr_def sizeof_LRUMemoryHunk_def)
  show ?thesis
    using get_buffer_and_refresh_frame[OF arena2_wf, of 3]
      get_buffer_and_refresh_frame[OF arena2_wf, of 1]
    unfolding a d by auto
qed



text \<open>
  Claim C8. On a well-formed arena \<^verbatim>\<open>flush\<close> returns. It releases the hunks in address order,
  each through the handle its header names (\<open>release_in_order s as\<close>); afterwards only the
  sentinel is left in both rings, every handle is unbound, and \<^verbatim>\<open>begin()\<close> equals \<^verbatim>\<open>end()\<close> in
  recency order and in address order.
\<close>

theorem flush_releases_all:
  assumes "well_formed s as ls"
  shows "\<exists>s'. flush s = Some s' \<and> release_in_order s as = Some s' \<and>
           well_formed s' [] [] \<and> (\<forall>h. handle_at s' h = nullptr) \<and>
           begin_iter s' True = end_iter s' \<and> begin_iter s' False = end_iter s' \<and>
           end_iter s' = Some nullptr"
proof -
  obtain s' where s': "flush s = Some s'" "release_in_order s as = Some s'" "well_formed s' [] []"
    using flush_wf[OF assms] by blast
  show ?thesis using s' wf_empty_iter[OF s'(3)] by auto
qed

theorem flush_releases_all_witness:
  "\<exists>s'. flush arena2 = Some s' \<and>
      (real_free arena2 2 \<bind> (\<lambda>s1. real_free s1 1)) = Some s' \<and> well_formed s' [] [] \<and>
      handle_at s' 1 = nullptr \<and> handle_at s' 2 = nullptr \<and>
      begin_iter s' True = end_iter s' \<and> begin_iter s' False = end_iter s'"
proof -
  obtain s' where s': "flush arena2 = Some s'" "release_in_order arena2 [1048, 1656] = Some s'"
    "well_formed s' [] []" "\<forall>h. handle_at s' h = nullptr"
    "begin_iter s' True = end_iter s'" "begin_iter s' False = end_iter s'"
    using flush_releases_all[OF arena2_wf] by blast
  obtain s1 where s1: "real_free arena2 (ownerF arena2 1048) = Some s1"
    "well_formed s1 (remove1 1048 [1048, 1656]) (remove1 1048 [1048, 1656])"
    "handle_at s1 = (handle_at arena2)(ownerF arena2 1048 := nullptr)"
    using wf_free[OF arena2_wf, of 1048] by auto
  have o: "ownerF arena2 1048 = 2" by (simp add: arena2_def hunk_def)
  have "handles_ok s1 [1656]" using s1(2) unfolding well_formed_def by simp
  then have "handle_at s1 (ownerF s1 1656) = 1656" unfolding handles_ok_def by simp
  moreover have "handle_at s1 x = 1656 \<longleftrightarrow> x = 1" for x
    unfolding s1(3) o by (simp add: arena2_def)
  ultimately have o1: "ownerF s1 1656 = 1" by simp
  have "(real_free arena2 2 \<bind> (\<lambda>s1. real_free s1 1)) = Some s'"
    using s'(2) s1(1) o o1 by simp
  then show ?thesis using s' by auto
qed

text \<open>
  Claim C1, as stated, fails: on the arena with one live 304-byte hunk owned by handle 1, a
  request of 4096 bytes returns null, yet handle 1 is unbound by the call, its hunk is gone
  and the consumed byte count has dropped from 352 to 48.
\<close>

theorem alloc_failure_changes_state:
  "(case alloc arena1 2 4096 of
      Some (p, s') \<Rightarrow> p = nullptr \<and> handle_at s' 1 = nullptr \<and> hunk_at s' 1048 = None \<and>
         mem_allocated_size s' = 48
    | None \<Rightarrow> False) \<and>
   handle_at arena1 1 = 1048 \<and> hunk_at arena1 1048 \<noteq> None \<and> mem_allocated_size arena1 = 352"
  by code_simp

text \<open>
  Claim C1, amended. When \<^verbatim>\<open>alloc\<close> on a well-formed arena returns null, every hunk that was
  live has been evicted: the arena is left as the constructor makes it (only the sentinel in
  both rings, consumed equal to the header size), no handle is bound, the handle passed in
  included. The store is unchanged when no hunk was live at entry.
\<close>

theorem alloc_failure_empties_arena:
  assumes "well_formed s as ls" and "alloc s handle_ptr size' = Some (nullptr, s')"
  shows "well_formed s' [] [] \<and> (\<forall>h. handle_at s' h = nullptr) \<and>
         LRUMemoryManager (mem_arena_ptr s) (mem_total_size s) = Some s' \<and>
         (as = [] \<longrightarrow> s' = s)"
proof -
  have l: "real_alloc_loop s handle_ptr
      ((size' + sizeof_LRUMemoryHunk + ALIGNMENT_MASK) AND NOT ALIGNMENT_MASK) = Some (nullptr, s')"
    using assms(2) unfolding alloc_def real_alloc_def by (simp add: Let_def)
  from alloc_fail_flushed[OF assms(1) l]
  have f: "well_formed s' [] []" "mem_total_size s' = mem_total_size s"
    "mem_arena_ptr s' = mem_arena_ptr s" by auto
  have u: "LRUMemoryManager (mem_arena_ptr s) (mem_total_size s) = Some s'"
    using wf_empty_unique[OF f(1)] unfolding f(2,3) .
  have "s' = s" if "as = []"
  proof -
    have "rings_ok s [] ls" using assms(1) that unfolding well_formed_def by simp
    then have "ls = []" unfolding rings_ok_def by simp
    then have "well_formed s [] []" using assms(1) that by simp
    from wf_empty_unique[OF this] u show ?thesis by simp
  qed
  then show ?thesis using f(1) u wf_empty_iter(4)[OF f(1)] by auto
qed

theorem alloc_failure_empties_arena_witness:
  "\<exists>s'. alloc arena1 2 4096 = Some (nullptr, s') \<and> well_formed s' [] [] \<and>
      handle_at s' 1 = nullptr \<and> LRUMemoryManager 1000 2048 = Some s'"
proof -
  have "alloc arena1 2 4096 \<noteq> None" "fst (the (alloc arena1 2 4096)) = nullptr"
    by code_simp+
  then obtain s' where a: "alloc arena1 2 4096 = Some (nullptr, s')"
    by (cases "alloc arena1 2 4096") auto
  have m: "mem_arena_ptr arena1 = 1000" "mem_total_size arena1 = 2048"
    by (simp_all add: arena1_def)
  show ?thesis
    using alloc_failure_empties_arena[OF arena1_wf a] a unfolding m by auto
qed

text \<open>
  Claim C9. On an empty well-formed arena, for every \<open>n\<close> whose hunk (header plus payload,
  rounded up to 16) fits behind the sentinel: \<^verbatim>\<open>alloc\<close> of \<open>n\<close> binds the handle to the hunk
  right behind the sentinel, \<^verbatim>\<open>free\<close> of the handle gives the arena back exactly as it was,
  and \<^verbatim>\<open>alloc\<close> of \<open>n\<close> again binds the handle to a hunk at the same address.
\<close>

theorem alloc_free_alloc_same_address:
  assumes wf: "well_formed s [] []" and h: "handle_ptr \<noteq> nullptr"
    and fits: "unat sizeof_LRUMemoryHunk + round_up (unat n + unat sizeof_LRUMemoryHunk) 16
                 \<le> unat (mem_total_size s)"
  shows "\<exists>s1. alloc s handle_ptr n = Some (data_ptr (mem_arena_ptr s + 48), s1) \<and>
           handle_at s1 handle_ptr = mem_arena_ptr s + 48 \<and>
           (\<exists>s2. free s1 handle_ptr = Some s2 \<and> s2 = s \<and>
              (\<exists>s3. alloc s2 handle_ptr n = Some (data_ptr (mem_arena_ptr s + 48), s3) \<and>
                 handle_at s3 handle_ptr = handle_at s1 handle_ptr))"
proof -
  define b where "b = mem_arena_ptr s"
  define w where "w = aligned_size n"
  have ok: "rings_ok s [] []" "layout_ok s []" using wf unfolding well_formed_def by auto
  have T: "unat (mem_total_size s) < 18446744073709551616"
    using unsigned_less[of "mem_total_size s", where 'a = nat] by simp
  have F: "48 + (63 + unat n) div 16 * 16 \<le> unat (mem_total_size s)"
    using fits unfolding round_up_def sizeof_LRUMemoryHunk_def by simp
  have "63 + unat n < (63 + unat n) div 16 * 16 + 16" by presburger
  then have "unat n + 63 < 18446744073709551616" using T F by linarith
  then have no: "unat n + 63 < 2 ^ 64" by simp
  note a = aligned_size_round_up[OF no, folded w_def]
  have hb: "bytesF s b = 48" using ok(2) unfolding layout_ok_def b_def
    by (simp add: sizeof_LRUMemoryHunk_def)
  have ff: "first_fit (bytesF s) (unat w) (mem_arena_ptr s) [] (pool_end s) = Some 0"
    using fits hb unfolding a(1) pool_end_def b_def by (simp add: sizeof_LRUMemoryHunk_def)
  have p: "b + 48 = last (mem_arena_ptr s # take 0 []) + bytesF s (last (mem_arena_ptr s # take 0 []))"
    using hb unfolding b_def by simp
  have un: "handle_at s handle_ptr = nullptr" using wf_empty_iter(4)[OF wf] .
  obtain s1 where s1: "real_alloc_loop s handle_ptr w = Some (data_ptr (b + 48), s1)"
    "well_formed s1 (take 0 [] @ (b + 48) # drop 0 []) [b + 48]"
    "mem_total_size s1 = mem_total_size s" "mem_arena_ptr s1 = mem_arena_ptr s"
    "handle_at s1 = (handle_at s)(handle_ptr := b + 48)"
    using alloc_first_pass[OF wf h un ff a(2,3) p] by blast
  have al: "alloc s handle_ptr n = Some (data_ptr (b + 48), s1)"
    unfolding alloc_def real_alloc_aligned w_def[symmetric] using s1(1) .
  have hp: "handle_at s1 handle_ptr = b + 48" unfolding s1(5) by simp
  have wf1: "well_formed s1 [b + 48] [b + 48]" using s1(2) by simp
  have "handle_at s1 handle_ptr \<noteq> nullptr" unfolding hp by simp
  from free_bound[OF wf1 this]
  obtain s2 where s2: "real_free s1 handle_ptr = Some s2" "well_formed s2 [] []"
    "mem_total_size s2 = mem_total_size s1" "mem_arena_ptr s2 = mem_arena_ptr s1"
    unfolding hp by auto
  have "Some s2 = Some s"
    using wf_empty_unique[OF s2(2)] wf_empty_unique[OF wf] unfolding s2(3,4) s1(3,4) by simp
  then have e: "s2 = s" by simp
  show ?thesis
    using al hp s2(1) e unfolding free_def b_def by auto
qed

theorem alloc_free_alloc_same_address_witness:
  "\<exists>s1. alloc arena0 1 250 = Some (1096, s1) \<and> handle_at s1 1 = 1048 \<and>
      free s1 1 = Some arena0 \<and>
      (\<exists>s3. alloc arena0 1 250 = Some (1096, s3) \<and> handle_at s3 1 = 1048)"
proof -
  have f: "unat sizeof_LRUMemoryHunk + round_up (unat (250 :: size_t) + unat sizeof_LRUMemoryHunk) 16
      \<le> unat (mem_total_size arena0)"
    by (simp add: sizeof_LRUMemoryHunk_def round_up_def arena0_def)
  have m: "mem_arena_ptr arena0 = 1000" by (simp add: arena0_def)
  have d: "data_ptr 1048 = 1096" by (simp add: data_ptr_def sizeof_LRUMemoryHunk_def)
  show ?thesis
    using alloc_free_alloc_same_address[OF arena0_wf _ f, of 1] unfolding m by (auto simp: d)
qed




text \<open>
  Claim C2 at a request size near the top of \<^verbatim>\<open>size_t\<close>. For \<open>n = 2\<^sup>6\<^sup>4 - 1\<close> the sum
  \<^verbatim>\<open>size + sizeof(LRUMemoryHunk) + ALIGNMENT_MASK\<close> wraps around, and the footprint that
  \<^verbatim>\<open>real_alloc\<close> computes is 48 bytes, where rounding \<open>n + 48\<close> up to a multiple of 16 gives
  \<open>2\<^sup>6\<^sup>4 + 48\<close>. On the empty 2048-byte arena the call succeeds: a hunk of 48 bytes, a header
  with no payload, is placed at 1048 and bound to the handle, and the payload pointer 1096 is
  returned for a request of \<open>2\<^sup>6\<^sup>4 - 1\<close> bytes. For every \<open>n < 2\<^sup>6\<^sup>4 - 63\<close> the footprint is the
  rounded sum (\<open>aligned_size_round_up\<close>) and the placement is first-fit
  (\<open>try_alloc_first_fit\<close>).
\<close>

theorem aligned_size_wraps:
  "aligned_size 18446744073709551615 = 48 \<and>
   round_up (unat (18446744073709551615 :: size_t) + unat sizeof_LRUMemoryHunk) 16 =
     18446744073709551664 \<and>
   (case alloc arena0 1 18446744073709551615 of
      Some (p, s') \<Rightarrow> p = 1096 \<and> handle_at s' 1 = 1048 \<and> size_field (hunk s' 1048) = 48 \<and>
        mem_allocated_size s' = 96
    | None \<Rightarrow> False)"
proof (intro conjI)
  show "aligned_size 18446744073709551615 = 48" by code_simp
  show "round_up (unat (18446744073709551615 :: size_t) + unat sizeof_LRUMemoryHunk) 16 =
     18446744073709551664"
    by (simp add: round_up_def sizeof_LRUMemoryHunk_def)
  show "case alloc arena0 1 18446744073709551615 of
      Some (p, s') \<Rightarrow> p = 1096 \<and> handle_at s' 1 = 1048 \<and> size_field (hunk s' 1048) = 48 \<and>
        mem_allocated_size s' = 96
    | None \<Rightarrow> False"
    by code_simp
qed


text \<open>
  Claim C6 at a pool smaller than the header, and at a request size that wraps. The
  constructor asks only for \<^verbatim>\<open>mem_pool_size > 0\<close>: with a pool of 16 bytes it returns an
  arena whose consumed byte count, 48, exceeds its capacity, 16 (the sentinel header does not
  fit the pool). For \<open>n = 2\<^sup>6\<^sup>4 - 63\<close> the footprint wraps to 0, and \<^verbatim>\<open>alloc\<close> on the empty
  2048-byte arena links a hunk of size 0, less than the header size, at 1048. On pools of at
  least 48 bytes and for \<open>n < 2\<^sup>6\<^sup>4 - 63\<close> the operations keep the arena well-formed
  (\<open>LRUMemoryManager_wf\<close>, \<open>alloc_wf\<close>, \<open>free_bound\<close>, \<open>wf_refresh\<close>, \<open>flush_wf\<close>), and a
  well-formed arena has the properties of the claim (\<open>wf_layout\<close>).
\<close>

theorem constructor_small_pool:
  "(case LRUMemoryManager 1000 16 of
      Some s \<Rightarrow> mem_allocated_size s = 48 \<and> mem_total_size s = 16 \<and>
        \<not> mem_allocated_size s \<le> mem_total_size s
    | None \<Rightarrow> False) \<and>
   (case alloc arena0 1 18446744073709551553 of
      Some (p, s') \<Rightarrow> p = 1096 \<and> next_ptr (hunk s' 1000) = 1048 \<and>
        size_field (hunk s' 1048) = 0 \<and> size_field (hunk s' 1048) < sizeof_LRUMemoryHunk
    | None \<Rightarrow> False)"
  by code_simp

text \<open>
  Claim C7 at a request size that wraps. For \<open>n = 2\<^sup>6\<^sup>4 - 63\<close> the footprint is 0. On the
  arena with one live hunk at 1048, right behind the sentinel, the first pass of
  \<^verbatim>\<open>try_alloc\<close> finds the empty gap between the sentinel and that hunk sufficient, constructs
  the new hunk at 1048 over the live one, which resets its links, and then writes through the
  null \<^verbatim>\<open>prev_ptr\<close> it has just reset: the call reaches neither a buffer nor a null result.
  For every \<open>n < 2\<^sup>6\<^sup>4 - 63\<close> the call returns after at most as many evictions as there are
  live hunks (\<open>alloc_passes\<close>).
\<close>

theorem alloc_wrapped_size_faults:
  "aligned_size 18446744073709551553 = 0 \<and> hunk_at arena1 1048 \<noteq> None \<and>
   try_alloc arena1 0 = None \<and> alloc arena1 2 18446744073709551553 = None"
  by code_simp

end
